theory Spec2Isabelle
  imports Main
begin

section \<open>Text: Python \<open>str\<close> and its character classes\<close>

text \<open>
  A Python \<open>str\<close> is modelled as a \<open>string\<close>, one \<open>char\<close> per code point, for the code
  points below 256. The three classes are those of \<open>re\<close> on \<open>str\<close> patterns (Unicode
  mode) and of \<open>str.strip\<close>, restricted to that range: \<open>\s\<close> and \<open>strip\<close> follow
  \<open>str.isspace\<close>, \<open>\d\<close> follows \<open>str.isdecimal\<close>, \<open>\w\<close> is alphanumeric or underscore.
\<close>

definition code :: "char \<Rightarrow> nat" where
  "code c = of_char c"

definition is_space :: "char \<Rightarrow> bool" where
  "is_space c = (let n = code c in
     (9 \<le> n \<and> n \<le> 13) \<or> (28 \<le> n \<and> n \<le> 32) \<or> n = 133 \<or> n = 160)"

definition is_digit :: "char \<Rightarrow> bool" where
  "is_digit c = (let n = code c in 48 \<le> n \<and> n \<le> 57)"

definition is_word :: "char \<Rightarrow> bool" where
  "is_word c = (let n = code c in
     (48 \<le> n \<and> n \<le> 57) \<or> (65 \<le> n \<and> n \<le> 90) \<or> n = 95 \<or> (97 \<le> n \<and> n \<le> 122) \<or>
     n = 170 \<or> n = 178 \<or> n = 179 \<or> n = 181 \<or> n = 185 \<or> n = 186 \<or>
     (188 \<le> n \<and> n \<le> 190) \<or> (192 \<le> n \<and> n \<le> 214) \<or> (216 \<le> n \<and> n \<le> 246) \<or>
     248 \<le> n)"

text \<open>\<open>s.strip()\<close>: leading and trailing whitespace removed.\<close>

definition strip :: "string \<Rightarrow> string" where
  "strip s = rev (dropWhile is_space (rev (dropWhile is_space s)))"

text \<open>\<open>s.startswith(p)\<close> and \<open>s.endswith(p)\<close>.\<close>

definition startswith :: "string \<Rightarrow> string \<Rightarrow> bool" where
  "startswith s p = (take (length p) s = p)"

definition endswith :: "string \<Rightarrow> string \<Rightarrow> bool" where
  "endswith s p = (length p \<le> length s \<and> drop (length s - length p) s = p)"

text \<open>\<open>s.split(sep, 1)\<close> for a one-character separator that occurs in \<open>s\<close>: the text
  before the first separator and the text after it.\<close>

definition split_first :: "char \<Rightarrow> string \<Rightarrow> string \<times> string" where
  "split_first sep s = (takeWhile (\<lambda>c. c \<noteq> sep) s, drop 1 (dropWhile (\<lambda>c. c \<noteq> sep) s))"

text \<open>
  Reading a text file (\<open>open(..., encoding='utf-8')\<close>, universal newlines): \<open>\r\n\<close> and a
  lone \<open>\r\<close> are read as \<open>\n\<close>; iterating the file and \<open>readlines()\<close> give the lines with
  their terminating \<open>\n\<close>, the last line possibly without one.
\<close>

fun universal_newlines :: "string \<Rightarrow> string" where
  "universal_newlines [] = []"
| "universal_newlines [c] = [if c = CHR 0x0D then CHR 0x0A else c]"
| "universal_newlines (c # d # cs) =
     (if c = CHR 0x0D then
        (if d = CHR 0x0A then CHR 0x0A # universal_newlines cs
         else CHR 0x0A # universal_newlines (d # cs))
      else c # universal_newlines (d # cs))"

fun splitlines :: "string \<Rightarrow> string list" where
  "splitlines [] = []"
| "splitlines (c # cs) =
     (if c = CHR 0x0A then [c] # splitlines cs
      else (case splitlines cs of [] \<Rightarrow> [[c]] | l # ls \<Rightarrow> (c # l) # ls))"

definition readlines :: "string \<Rightarrow> string list" where
  "readlines content = splitlines (universal_newlines content)"

section \<open>Mapping loader\<close>

type_synonym sprite_map = "string \<rightharpoonup> string"

text \<open>The body of the loop of \<open>load_sprite_map\<close>: one line of the mapping file, applied
  to the dictionary built so far.\<close>

definition load_line :: "sprite_map \<Rightarrow> string \<Rightarrow> sprite_map" where
  "load_line mapping line0 =
     (let line = strip line0 in
      if line = [] \<or> startswith line ''#'' then mapping
      else if CHR ''-'' \<notin> set line then mapping
      else (let (key, val) = split_first CHR ''-'' line
            in mapping(strip key \<mapsto> strip val)))"

definition load_lines :: "string list \<Rightarrow> sprite_map" where
  "load_lines ls = foldl load_line Map.empty ls"

section \<open>Pattern matcher\<close>

text \<open>
  The regular expressions of the tool use four constructs: a literal text, a greedy
  \<open>*\<close> or \<open>+\<close> over one character class, concatenation, and a capturing group.
  \<open>rx_match p s\<close> lists every way \<open>p\<close> matches a prefix of \<open>s\<close>, in the order in which
  the backtracking matcher of \<open>re\<close> tries them (a greedy repetition tries its longest run
  first); each entry gives the captured groups in the order of their opening
  parentheses, the matched text and the text left. The match \<open>re\<close> reports at a position
  is the first entry.
\<close>

datatype cclass = CSpace | CDigit | CWord

fun in_class :: "cclass \<Rightarrow> char \<Rightarrow> bool" where
  "in_class CSpace c = is_space c"
| "in_class CDigit c = is_digit c"
| "in_class CWord c = is_word c"

datatype rx = Lit string | Star cclass | Plus cclass | Seq rx rx | Grp rx

type_synonym rmatch = "string list \<times> string \<times> string"

fun rx_match :: "rx \<Rightarrow> string \<Rightarrow> rmatch list" where
  "rx_match (Lit l) s = (if startswith s l then [([], l, drop (length l) s)] else [])"
| "rx_match (Star c) s =
     map (\<lambda>k. ([], take k s, drop k s)) (rev [0 ..< Suc (length (takeWhile (in_class c) s))])"
| "rx_match (Plus c) s =
     map (\<lambda>k. ([], take k s, drop k s)) (rev [1 ..< Suc (length (takeWhile (in_class c) s))])"
| "rx_match (Seq a b) s =
     concat (map (\<lambda>(g1, m1, r1). map (\<lambda>(g2, m2, r2). (g1 @ g2, m1 @ m2, r2)) (rx_match b r1))
                 (rx_match a s))"
| "rx_match (Grp a) s = map (\<lambda>(g, m, r). (m # g, m, r)) (rx_match a s)"

definition match_at :: "rx \<Rightarrow> string \<Rightarrow> rmatch option" where
  "match_at p s = (case rx_match p s of [] \<Rightarrow> None | x # _ \<Rightarrow> Some x)"

text \<open>\<open>SPRITE_VARS\<close> (\<open>r'sprite_index'\<close> and \<open>r'\w*spr\w*'\<close>), and the pattern built from one
  of its entries:
  \<open>r'(' + var + r')\s*=\s*(\d+)\s*;'\<close>.\<close>

definition exact_var :: rx where
  "exact_var = Lit ''sprite_index''"

definition spr_var :: rx where
  "spr_var = Seq (Star CWord) (Seq (Lit ''spr'') (Star CWord))"

definition SPRITE_VARS :: "rx list" where
  "SPRITE_VARS = [exact_var, spr_var]"

definition assign_tail :: rx where
  "assign_tail = Seq (Star CSpace) (Seq (Lit ''='') (Seq (Star CSpace)
     (Seq (Grp (Plus CDigit)) (Seq (Star CSpace) (Lit '';'')))))"

definition pattern :: "rx \<Rightarrow> rx" where
  "pattern var = Seq (Grp var) assign_tail"

lemma rx_match_split: "(g, m, r) \<in> set (rx_match p s) \<Longrightarrow> s = m @ r"
proof (induction p arbitrary: g m r s)
  case (Lit l)
  then show ?case
    by (auto simp: startswith_def split: if_splits) (metis append_take_drop_id)
next
  case (Seq a b)
  from Seq.prems obtain g1 m1 r1 g2 m2 where
    a: "(g1, m1, r1) \<in> set (rx_match a s)" and b: "(g2, m2, r) \<in> set (rx_match b r1)"
    and m: "m = m1 @ m2"
    by auto
  from Seq.IH(1)[OF a] Seq.IH(2)[OF b] m show ?case by simp
qed auto

lemma match_at_split: "match_at p s = Some (g, m, r) \<Longrightarrow> s = m @ r"
  unfolding match_at_def using rx_match_split[of g m r p s]
  by (auto split: list.splits)

text \<open>
  \<open>re.sub(pattern, repl, s)\<close> with a function \<open>repl\<close>: the leftmost match is looked for
  from the current position, \<open>repl\<close> gives its replacement, and the search goes on after
  the match; text outside the matches is copied. \<open>repl\<close> returns, beside the replacement
  text, the events it caused (here the accepted substitutions), collected in order.
  An empty match is replaced where it stands and the next character copied (the patterns
  of this tool never match the empty text).
\<close>

function re_sub :: "rx \<Rightarrow> (rmatch \<Rightarrow> string \<times> 'e list) \<Rightarrow> string \<Rightarrow> string \<times> 'e list" where
  "re_sub p repl s =
     (case match_at p s of
        None \<Rightarrow>
          (case s of
             [] \<Rightarrow> ([], [])
           | c # cs \<Rightarrow> (let later = re_sub p repl cs in (c # fst later, snd later)))
      | Some x \<Rightarrow>
          (let here = repl x in
           if fst (snd x) = [] then
             (case s of
                [] \<Rightarrow> here
              | c # cs \<Rightarrow> (let later = re_sub p repl cs
                           in (fst here @ c # fst later, snd here @ snd later)))
           else (let later = re_sub p repl (snd (snd x))
                 in (fst here @ fst later, snd here @ snd later))))"
  by pat_completeness auto
termination
  by (relation "measure (\<lambda>(p, repl, s). length s)") (auto dest: match_at_split)

declare re_sub.simps [simp del]

text \<open>
  The callback \<open>repl\<close> of \<open>replace_in_file\<close>, for the line \<open>orig_line\<close> at number \<open>idx\<close>:
  group 1 is the variable name, group 2 the digits. A replacement record is the triple
  \<open>(orig_line, new_line, idx)\<close> appended to \<open>replacements\<close>; each record stands for one
  accepted substitution, whose message goes to the two log callbacks.
\<close>

type_synonym replacement = "string \<times> string \<times> nat"

definition repl :: "sprite_map \<Rightarrow> string \<Rightarrow> nat \<Rightarrow> rmatch \<Rightarrow> string \<times> replacement list" where
  "repl sprite_map orig_line idx x =
     (let varname = fst x ! 0; num = fst x ! 1 in
      case sprite_map num of
        Some v \<Rightarrow> (let new_line = varname @ '' = '' @ v @ '';''
                  in (new_line, [(orig_line, new_line, idx)]))
      | None \<Rightarrow> (fst (snd x), []))"

text \<open>One turn of \<open>for var in SPRITE_VARS\<close>: \<open>line = re.sub(pattern, repl, line)\<close>.\<close>

definition sub_var ::
  "sprite_map \<Rightarrow> string \<Rightarrow> nat \<Rightarrow> string \<times> replacement list \<Rightarrow> rx \<Rightarrow> string \<times> replacement list"
where
  "sub_var sprite_map orig_line idx st var =
     (let res = re_sub (pattern var) (repl sprite_map orig_line idx) (fst st)
      in (fst res, snd st @ snd res))"

text \<open>The body of the loop over the lines, for one line: the new line and the records.\<close>

definition process_line :: "sprite_map \<Rightarrow> nat \<Rightarrow> string \<Rightarrow> string \<times> replacement list" where
  "process_line sprite_map idx orig_line =
     foldl (sub_var sprite_map orig_line idx) (orig_line, []) SPRITE_VARS"

text \<open>The loop \<open>for idx, line in enumerate(lines, 1)\<close>: \<open>new_lines\<close>, \<open>changed\<close> and
  \<open>replacements\<close>.\<close>

fun rewrite_lines :: "sprite_map \<Rightarrow> nat \<Rightarrow> string list \<Rightarrow> string list \<times> bool \<times> replacement list" where
  "rewrite_lines sprite_map idx [] = ([], False, [])"
| "rewrite_lines sprite_map idx (l # ls) =
     (let here = process_line sprite_map idx l;
          later = rewrite_lines sprite_map (Suc idx) ls
      in (fst here # fst later, fst here \<noteq> l \<or> fst (snd later), snd here @ snd (snd later)))"

section \<open>Paths and numbers\<close>

text \<open>\<open>os.path\<close> on a POSIX system, and \<open>str\<close> of a natural number.\<close>

definition os_path_join :: "string \<Rightarrow> string \<Rightarrow> string" where
  "os_path_join a b =
     (if startswith b ''/'' then b
      else if a = [] \<or> endswith a ''/'' then a @ b
      else a @ ''/'' @ b)"

definition os_path_basename :: "string \<Rightarrow> string" where
  "os_path_basename p = rev (takeWhile (\<lambda>c. c \<noteq> CHR ''/'') (rev p))"

definition os_path_dirname :: "string \<Rightarrow> string" where
  "os_path_dirname p =
     (let head = rev (dropWhile (\<lambda>c. c \<noteq> CHR ''/'') (rev p)) in
      if head \<noteq> [] \<and> \<not> list_all (\<lambda>c. c = CHR ''/'') head
      then rev (dropWhile (\<lambda>c. c = CHR ''/'') (rev head))
      else head)"

fun str_nat :: "nat \<Rightarrow> string" where
  "str_nat n =
     (if n < 10 then [char_of (48 + n)]
      else str_nat (n div 10) @ [char_of (48 + n mod 10)])"

declare str_nat.simps [simp del]

section \<open>The file system and the callbacks\<close>

text \<open>
  The state a run acts on: the content of every file by its path, the paths that cannot be
  opened for reading or for writing (opening raises \<open>IOError\<close>), the file operations done
  so far, and what the two callbacks have received. The session log is a file like any
  other, written as the run goes.
\<close>

datatype error = IOError

datatype fs_op = OpenRead string | OpenWrite string | CopyFile string string

record world =
  files :: "string \<rightharpoonup> string"
  no_read :: "string \<Rightarrow> bool"
  no_write :: "string \<Rightarrow> bool"
  fs_ops :: "fs_op list"
  gui_out :: "string list"
  status_out :: "string list"

definition open_read :: "string \<Rightarrow> world \<Rightarrow> world \<times> (error + string)" where
  "open_read p w =
     (case files w p of
        None \<Rightarrow> (w, Inl IOError)
      | Some c \<Rightarrow> if no_read w p then (w, Inl IOError)
                  else (w\<lparr>fs_ops := fs_ops w @ [OpenRead p]\<rparr>, Inr c))"

text \<open>\<open>open(p, 'w')\<close> followed by writing \<open>text\<close> (\<open>\n\<close> is written as it is).\<close>

definition write_file :: "string \<Rightarrow> string \<Rightarrow> world \<Rightarrow> world \<times> (error + unit)" where
  "write_file p text w =
     (if no_write w p then (w, Inl IOError)
      else (w\<lparr>files := (files w)(p \<mapsto> text), fs_ops := fs_ops w @ [OpenWrite p]\<rparr>, Inr ()))"

text \<open>A later \<open>write\<close> on a file that is open for writing.\<close>

definition append_file :: "string \<Rightarrow> string \<Rightarrow> world \<Rightarrow> world" where
  "append_file p text w =
     w\<lparr>files := (files w)(p \<mapsto> (case files w p of None \<Rightarrow> text | Some c \<Rightarrow> c @ text))\<rparr>"

definition shutil_copy :: "string \<Rightarrow> string \<Rightarrow> world \<Rightarrow> world \<times> (error + unit)" where
  "shutil_copy src dst w =
     (case files w src of
        None \<Rightarrow> (w, Inl IOError)
      | Some c \<Rightarrow> if no_read w src \<or> no_write w dst then (w, Inl IOError)
                  else (w\<lparr>files := (files w)(dst \<mapsto> c), fs_ops := fs_ops w @ [CopyFile src dst]\<rparr>,
                        Inr ()))"

definition backup_file :: "string \<Rightarrow> world \<Rightarrow> world \<times> (error + unit)" where
  "backup_file filepath w =
     (if files w (filepath @ ''.bak'') = None then shutil_copy filepath (filepath @ ''.bak'') w
      else (w, Inr ()))"

text \<open>The callbacks: \<open>gui_log_callback\<close> and \<open>status_callback\<close> are given or not (a flag);
  \<open>file_log_callback\<close>, when given, writes the message and \<open>\n\<close> to the session log.\<close>

definition gui_log_callback :: "bool \<Rightarrow> string \<Rightarrow> world \<Rightarrow> world" where
  "gui_log_callback given msg w = (if given then w\<lparr>gui_out := gui_out w @ [msg]\<rparr> else w)"

definition status_callback :: "bool \<Rightarrow> string \<Rightarrow> world \<Rightarrow> world" where
  "status_callback given msg w = (if given then w\<lparr>status_out := status_out w @ [msg]\<rparr> else w)"

definition file_log_callback :: "string option \<Rightarrow> string \<Rightarrow> world \<Rightarrow> world" where
  "file_log_callback log_f msg w =
     (case log_f of None \<Rightarrow> w | Some log_path \<Rightarrow> append_file log_path (msg @ ''\<newline>'') w)"

text \<open>The message of one accepted substitution; the arrow U+2192 stands as the three
  bytes of its UTF-8 form, as the session log stores it.\<close>

definition arrow :: string where
  "arrow = [CHR 0xE2, CHR 0x86, CHR 0x92]"

definition log_msg :: "string \<Rightarrow> replacement \<Rightarrow> string" where
  "log_msg filename rep =
     (case rep of (orig_line, new_line, idx) \<Rightarrow>
        ''['' @ os_path_basename filename @ '':'' @ str_nat idx @ ''] '' @ strip orig_line @
        '' '' @ arrow @ '' '' @ new_line)"

definition notify :: "bool \<Rightarrow> string option \<Rightarrow> string \<Rightarrow> world \<Rightarrow> replacement \<Rightarrow> world" where
  "notify gui log_f filename w rep =
     file_log_callback log_f (log_msg filename rep) (gui_log_callback gui (log_msg filename rep) w)"

section \<open>File rewriter\<close>

definition replace_in_file ::
  "string \<Rightarrow> sprite_map \<Rightarrow> bool \<Rightarrow> string option \<Rightarrow> world \<Rightarrow> world \<times> (error + bool \<times> replacement list)"
where
  "replace_in_file filename sprite_map gui log_f w =
     (case open_read filename w of
        (w1, Inl e) \<Rightarrow> (w1, Inl e)
      | (w1, Inr content) \<Rightarrow>
          (let res = rewrite_lines sprite_map 1 (readlines content);
               new_lines = fst res; changed = fst (snd res); replacements = snd (snd res);
               w2 = foldl (notify gui log_f filename) w1 replacements
           in if changed then
                (case backup_file filename w2 of
                   (w3, Inl e) \<Rightarrow> (w3, Inl e)
                 | (w3, Inr u) \<Rightarrow>
                     (case write_file filename (concat new_lines) w3 of
                        (w4, Inl e) \<Rightarrow> (w4, Inl e)
                      | (w4, Inr u') \<Rightarrow> (w4, Inr (changed, replacements))))
              else (w2, Inr (changed, replacements))))"

definition load_sprite_map :: "string \<Rightarrow> world \<Rightarrow> world \<times> (error + sprite_map)" where
  "load_sprite_map mapping_file w =
     (case open_read mapping_file w of
        (w1, Inl e) \<Rightarrow> (w1, Inl e)
      | (w1, Inr content) \<Rightarrow> (w1, Inr (load_lines (readlines content))))"

section \<open>Tree walker\<close>

text \<open>
  A directory as \<open>os.walk\<close> lists it: the names of its files and its subdirectories. The
  walk is top-down. Nothing the run creates (a backup beside a file already listed, the
  session log) is an eligible file, so the listing is taken once.
\<close>

datatype dir = Dir "string list" "(string \<times> dir) list"

fun os_walk :: "string \<Rightarrow> dir \<Rightarrow> (string \<times> string list \<times> string list) list" where
  "os_walk root (Dir fs subs) =
     (root, map fst subs, fs) #
     concat (map (\<lambda>nd. os_walk (os_path_join root (fst nd)) (snd nd)) subs)"

definition CODE_EXTENSIONS :: "string list" where
  "CODE_EXTENSIONS = [''.gml'', ''.yy'', ''.yyp'']"

definition LOG_FILENAME :: string where
  "LOG_FILENAME = ''spritereplacement_log.txt''"

definition eligible :: "string \<Rightarrow> bool" where
  "eligible file = list_ex (\<lambda>ext. endswith file ext) CODE_EXTENSIONS"

text \<open>The paths of the eligible files, in the order the two nested loops reach them.\<close>

definition walk_files :: "string \<Rightarrow> dir \<Rightarrow> string list" where
  "walk_files project_dir tree =
     concat (map (\<lambda>(root, dirs, fs). map (os_path_join root) (filter eligible fs))
                 (os_walk project_dir tree))"

text \<open>The body of the loops for the eligible files left to visit; an \<open>IOError\<close> of
  \<open>replace_in_file\<close> is not caught and ends the walk.\<close>

fun scan_files ::
  "sprite_map \<Rightarrow> bool \<Rightarrow> bool \<Rightarrow> string \<Rightarrow> string list \<Rightarrow>
   string list \<times> (string \<times> replacement) list \<Rightarrow> world \<Rightarrow>
   world \<times> (error + string list \<times> (string \<times> replacement) list)"
where
  "scan_files sprite_map gui status log_path [] acc w = (w, Inr acc)"
| "scan_files sprite_map gui status log_path (filepath # rest) acc w =
     (let w1 = status_callback status (''Scanning: '' @ filepath) w;
          w2 = gui_log_callback gui (''Checking: '' @ filepath) w1
      in case replace_in_file filepath sprite_map gui (Some log_path) w2 of
           (w3, Inl e) \<Rightarrow> (w3, Inl e)
         | (w3, Inr (changed, replacements)) \<Rightarrow>
             scan_files sprite_map gui status log_path rest
               (if changed
                then (fst acc @ [filepath], snd acc @ map (\<lambda>rep. (filepath, rep)) replacements)
                else acc) w3)"

definition summary :: "nat \<Rightarrow> string \<Rightarrow> string" where
  "summary n log_path =
     ''\<newline>Replacements done in '' @ str_nat n @ '' files.\<newline>Log saved to '' @ log_path @ ''\<newline>''"

text \<open>\<open>scan_and_replace\<close>; \<open>argv0\<close> is \<open>sys.argv[0]\<close> and \<open>tree\<close> the directory found at
  \<open>project_dir\<close>.\<close>

definition scan_and_replace ::
  "string \<Rightarrow> dir \<Rightarrow> string \<Rightarrow> string \<Rightarrow> bool \<Rightarrow> bool \<Rightarrow> world \<Rightarrow>
   world \<times> (error + string list \<times> (string \<times> replacement) list \<times> string)"
where
  "scan_and_replace argv0 tree project_dir mapping_file gui status w =
     (case load_sprite_map mapping_file w of
        (w1, Inl e) \<Rightarrow> (w1, Inl e)
      | (w1, Inr sprite_map) \<Rightarrow>
          (let log_path = os_path_join (os_path_dirname argv0) LOG_FILENAME in
           case write_file log_path [] w1 of
             (w2, Inl e) \<Rightarrow> (w2, Inl e)
           | (w2, Inr u) \<Rightarrow>
               (case scan_files sprite_map gui status log_path (walk_files project_dir tree)
                       ([], []) w2 of
                  (w3, Inl e) \<Rightarrow> (w3, Inl e)
                | (w3, Inr (replaced_files, all_replacements)) \<Rightarrow>
                    (let s = summary (length replaced_files) log_path;
                         w4 = gui_log_callback gui s w3;
                         w5 = append_file log_path s w4;
                         w6 = status_callback status ''Done.'' w5
                     in (w6, Inr (replaced_files, all_replacements, log_path))))))"

section \<open>The claims' own notions\<close>

text \<open>\<open>rstrip\<close> removes trailing whitespace (an auxiliary notion of the proofs).\<close>

definition rstrip :: "string \<Rightarrow> string" where
  "rstrip s = rev (dropWhile is_space (rev s))"


text \<open>
  The mapping loader in the words of its description: a line that is empty after
  trimming, or whose first character after leading whitespace is \<open>#\<close>, gives no entry; a
  line without \<open>-\<close> gives no entry; any other line is split at its first \<open>-\<close> and both
  parts are trimmed. Of several entries with one key the last one counts.
\<close>

definition spec_mapping_entry :: "string \<Rightarrow> (string \<times> string) option" where
  "spec_mapping_entry line =
     (if strip line = [] \<or> take 1 (dropWhile is_space line) = ''#'' then None
      else if CHR ''-'' \<notin> set line then None
      else Some (strip (takeWhile (\<lambda>c. c \<noteq> CHR ''-'') line),
                 strip (drop 1 (dropWhile (\<lambda>c. c \<noteq> CHR ''-'') line))))"

definition spec_load :: "string list \<Rightarrow> sprite_map" where
  "spec_load ls = map_of (rev (List.map_filter spec_mapping_entry ls))"


fun has_spr :: "string \<Rightarrow> bool" where
  "has_spr [] = False"
| "has_spr (c # cs) = (startswith (c # cs) ''spr'' \<or> has_spr cs)"

definition spr_name :: "string \<Rightarrow> bool" where
  "spr_name var = (list_all is_word var \<and> has_spr var)"

definition assign_text :: "string \<Rightarrow> string \<Rightarrow> string \<Rightarrow> string \<Rightarrow> string \<Rightarrow> string" where
  "assign_text var ws1 ws2 ds ws3 = var @ ws1 @ ''='' @ ws2 @ ds @ ws3 @ '';''"

definition assign_parts :: "string \<Rightarrow> string \<Rightarrow> string \<Rightarrow> string \<Rightarrow> bool" where
  "assign_parts ws1 ws2 ds ws3 =
     (list_all is_space ws1 \<and> list_all is_space ws2 \<and> list_all is_space ws3 \<and>
      list_all is_digit ds \<and> ds \<noteq> [])"

definition var_name :: "rx \<Rightarrow> string \<Rightarrow> bool" where
  "var_name v var = ((v = exact_var \<and> var = ''sprite_index'') \<or> (v = spr_var \<and> spr_name var))"

definition trailing_key :: "string \<Rightarrow> string" where
  "trailing_key x = rev (takeWhile is_digit (dropWhile is_space (rev x)))"

definition log_path_of :: "string \<Rightarrow> string" where
  "log_path_of argv0 = os_path_join (os_path_dirname argv0) LOG_FILENAME"

text \<open>Several runs one after the other, each with its own arguments
  \<open>(argv0, tree, project_dir, mapping_file, gui, status)\<close>; a run that raises leaves the
  state it reached.\<close>

fun run_all :: "(string \<times> dir \<times> string \<times> string \<times> bool \<times> bool) list \<Rightarrow> world \<Rightarrow> world" where
  "run_all [] w = w"
| "run_all ((argv0, tree, project_dir, mapping_file, gui, status) # rs) w =
     run_all rs (fst (scan_and_replace argv0 tree project_dir mapping_file gui status w))"

text \<open>A mapped value is read again by a later pass when it holds a \<open>;\<close>, or ends
  (whitespace apart) in digits that are themselves a key.\<close>

definition reread :: "sprite_map \<Rightarrow> string \<Rightarrow> bool" where
  "reread sprite_map x =
     (CHR '';'' \<in> set x \<or> (trailing_key x \<noteq> [] \<and> sprite_map (trailing_key x) \<noteq> None))"

section \<open>Trimming and the mapping loader\<close>

lemma strip_rstrip: "strip s = rstrip (dropWhile is_space s)"
  by (simp add: strip_def rstrip_def)

lemma rstrip_keep: "\<not> is_space c \<Longrightarrow> rstrip (k @ c # v) = k @ c # rstrip v"
  by (simp add: rstrip_def dropWhile_append)

lemma rstrip_keep0: "\<not> is_space c \<Longrightarrow> rstrip (c # v) = c # rstrip v"
  using rstrip_keep[of c "[]" v] by simp

lemma rstrip_idem: "rstrip (rstrip s) = rstrip s"
  by (simp add: rstrip_def)

lemma rstrip_spaces: "\<forall>c \<in> set s. is_space c \<Longrightarrow> rstrip s = []"
  by (simp add: rstrip_def)

lemma strip_lead: "\<forall>c \<in> set a. is_space c \<Longrightarrow> strip (a @ s) = strip s"
  by (simp add: strip_def dropWhile_append)

lemma dropWhile_all: "\<forall>c \<in> set s. P c \<Longrightarrow> dropWhile P s = []"
  by simp

lemma dropWhile_cases:
  obtains "\<forall>c \<in> set s. P c" "dropWhile P s = []"
  | a c t where "s = a @ c # t" "\<forall>x \<in> set a. P x" "\<not> P c" "dropWhile P s = c # t"
proof (cases "dropWhile P s")
  case Nil
  then show ?thesis using that(1) by (simp add: dropWhile_eq_Nil_conv)
next
  case (Cons c t)
  then show ?thesis
    using that(2)[of "takeWhile P s" c t]
    by (metis hd_dropWhile list.sel(1) list.discI set_takeWhileD takeWhile_dropWhile_id)
qed

lemma strip_rstrip_arg: "strip (rstrip v) = strip v"
proof (cases rule: dropWhile_cases[of v is_space])
  case 1
  then show ?thesis by (simp add: rstrip_spaces strip_rstrip dropWhile_all rstrip_def)
next
  case (2 a c t)
  then show ?thesis
    by (simp add: strip_rstrip rstrip_keep rstrip_keep0 dropWhile_append rstrip_idem)
qed

lemma not_space_dash [simp]: "\<not> is_space CHR ''-''" "\<not> is_space CHR ''#''"
  by (simp_all add: is_space_def code_def)

lemma strip_hd: "startswith (strip l) [c] \<longleftrightarrow> \<not> is_space c \<and> take 1 (dropWhile is_space l) = [c]"
proof (cases rule: dropWhile_cases[of l is_space])
  case 1
  then show ?thesis by (simp add: strip_rstrip rstrip_def startswith_def dropWhile_all)
next
  case (2 a d t)
  then show ?thesis
    using rstrip_keep[of d "[]" t] by (auto simp add: strip_rstrip startswith_def)
qed

lemma set_dropWhile_keep: "\<not> P c \<Longrightarrow> c \<in> set (dropWhile P l) \<longleftrightarrow> c \<in> set l"
  by (induction l) auto

lemma set_strip_nonspace: "\<not> is_space c \<Longrightarrow> c \<in> set (strip l) \<longleftrightarrow> c \<in> set l"
  by (simp add: strip_def set_dropWhile_keep)

lemma strip_split_key:
  assumes "CHR ''-'' \<in> set l"
  shows "strip (takeWhile (\<lambda>c. c \<noteq> CHR ''-'') (strip l)) = strip (takeWhile (\<lambda>c. c \<noteq> CHR ''-'') l)"
    and "strip (drop (Suc 0) (dropWhile (\<lambda>c. c \<noteq> CHR ''-'') (strip l))) = strip (drop (Suc 0) (dropWhile (\<lambda>c. c \<noteq> CHR ''-'') l))"
proof -
  from assms obtain k v where l: "l = k @ CHR ''-'' # v" and k: "CHR ''-'' \<notin> set k"
    by (meson split_list_first)
  define a where "a = takeWhile is_space k"
  define k' where "k' = dropWhile is_space k"
  have ak: "k = a @ k'" and asp: "\<forall>c \<in> set a. is_space c"
    by (auto simp: a_def k'_def dest: set_takeWhileD)
  have k'dash: "CHR ''-'' \<notin> set k'" using k ak by auto
  have dw: "dropWhile is_space l = k' @ CHR ''-'' # v"
    unfolding l k'_def by (simp add: dropWhile_append)
  have st: "strip l = k' @ CHR ''-'' # rstrip v"
    by (simp add: strip_rstrip dw rstrip_keep)
  have tk: "takeWhile (\<lambda>c. c \<noteq> CHR ''-'') (strip l) = k'"
    unfolding st using k'dash by (simp add: takeWhile_append)
  have tk0: "takeWhile (\<lambda>c. c \<noteq> CHR ''-'') l = a @ k'"
    unfolding l using k ak by (simp add: takeWhile_append)
  show "strip (takeWhile (\<lambda>c. c \<noteq> CHR ''-'') (strip l)) = strip (takeWhile (\<lambda>c. c \<noteq> CHR ''-'') l)"
    by (simp add: tk tk0 strip_lead asp)
  have dr: "dropWhile (\<lambda>c. c \<noteq> CHR ''-'') (strip l) = CHR ''-'' # rstrip v"
    unfolding st using k'dash by (simp add: dropWhile_append)
  have dr0: "dropWhile (\<lambda>c. c \<noteq> CHR ''-'') l = CHR ''-'' # v"
    unfolding l using k by (simp add: dropWhile_append)
  show "strip (drop (Suc 0) (dropWhile (\<lambda>c. c \<noteq> CHR ''-'') (strip l))) = strip (drop (Suc 0) (dropWhile (\<lambda>c. c \<noteq> CHR ''-'') l))"
    by (simp add: dr dr0 strip_rstrip_arg)
qed


lemma load_line_spec:
  "load_line m l = (case spec_mapping_entry l of None \<Rightarrow> m | Some (k, v) \<Rightarrow> m(k \<mapsto> v))"
proof (cases "CHR ''-'' \<in> set l")
  case True
  show ?thesis
    using strip_hd[of l "CHR ''#''"] True strip_split_key[OF True]
    by (simp add: load_line_def spec_mapping_entry_def Let_def split_first_def
      set_strip_nonspace)
next
  case False
  then show ?thesis
    using strip_hd[of l "CHR ''#''"]
    by (simp add: load_line_def spec_mapping_entry_def Let_def split_first_def
      set_strip_nonspace)
qed

lemma foldl_load_line:
  "foldl load_line m ls = m ++ map_of (rev (List.map_filter spec_mapping_entry ls))"
proof (induction ls arbitrary: m)
  case Nil
  then show ?case by simp
next
  case (Cons l ls)
  have step: "foldl load_line m (l # ls) =
      load_line m l ++ map_of (rev (List.map_filter spec_mapping_entry ls))"
    by (simp add: Cons.IH)
  show ?case
  proof (cases "spec_mapping_entry l")
    case None
    then have "load_line m l = m" by (simp add: load_line_spec[of m l])
    with None step show ?thesis by simp
  next
    case (Some kv)
    obtain k v where kv: "kv = (k, v)" by (cases kv)
    have l: "load_line m l = m(k \<mapsto> v)" using Some kv by (simp add: load_line_spec[of m l])
    show ?thesis
      unfolding step l
      by (rule ext) (simp add: Some kv map_add_def split: option.splits)
  qed
qed

lemma load_lines_spec: "load_lines ls = spec_load ls"
  by (simp add: load_lines_def spec_load_def foldl_load_line)

text \<open>
  C7. For every readable mapping file, \<open>load_sprite_map\<close> returns the map described above:
  comment lines, blank lines and lines without \<open>-\<close> are skipped, every other line is
  split at its first \<open>-\<close> with key and value trimmed, and the last entry of a key wins.
\<close>

theorem load_sprite_map_spec:
  assumes "files w mapping_file = Some content" and "\<not> no_read w mapping_file"
  shows "snd (load_sprite_map mapping_file w) = Inr (spec_load (readlines content))"
  using assms by (simp add: load_sprite_map_def open_read_def load_lines_spec)

text \<open>The example of the claim: a comment, a blank line and \<open>7-spr_x\<close> load to the map with
  the single entry \<open>7\<close> to \<open>spr_x\<close>.\<close>

theorem load_sprite_map_spec_witness:
  "snd (load_sprite_map ''map.txt''
      \<lparr>files = [''map.txt'' \<mapsto> ''# comment\<newline>\<newline>7-spr_x\<newline>''], no_read = (\<lambda>p. False),
       no_write = (\<lambda>p. False), fs_ops = [], gui_out = [], status_out = []\<rparr>)
   = Inr [''7'' \<mapsto> ''spr_x'']"
proof -
  have e: "List.map_filter spec_mapping_entry (readlines ''# comment\<newline>\<newline>7-spr_x\<newline>'')
      = [(''7'', ''spr_x'')]"
    by code_simp
  show ?thesis
    using load_sprite_map_spec[of
        "\<lparr>files = [''map.txt'' \<mapsto> ''# comment\<newline>\<newline>7-spr_x\<newline>''], no_read = (\<lambda>p. False),
          no_write = (\<lambda>p. False), fs_ops = [], gui_out = [], status_out = []\<rparr>"
        "''map.txt''" "''# comment\<newline>\<newline>7-spr_x\<newline>''"]
    by (simp add: spec_load_def e)
qed

lemma prefix_class_iff:
  "(\<exists>k \<le> length (takeWhile P s). m = take k s \<and> r = drop k s) \<longleftrightarrow> (s = m @ r \<and> list_all P m)"
proof
  assume "\<exists>k \<le> length (takeWhile P s). m = take k s \<and> r = drop k s"
  then obtain k where k: "k \<le> length (takeWhile P s)" "m = take k s" "r = drop k s" by blast
  have "take k s = take k (takeWhile P s)"
    using k(1) by (metis append_eq_conv_conj takeWhile_dropWhile_id take_all take_append
        diff_is_0_eq' take_0 append_Nil2)
  then have "set m \<subseteq> set (takeWhile P s)" using k(2) by (metis set_take_subset)
  then have "list_all P m" by (auto simp: list_all_iff dest: set_takeWhileD)
  with k show "s = m @ r \<and> list_all P m" by simp
next
  assume a: "s = m @ r \<and> list_all P m"
  then have "takeWhile P s = m @ takeWhile P r"
    by (simp add: list_all_iff takeWhile_append2)
  then have "length m \<le> length (takeWhile P s)" by simp
  with a show "\<exists>k \<le> length (takeWhile P s). m = take k s \<and> r = drop k s"
    by (intro exI[of _ "length m"]) simp
qed

lemma in_rx_match_Lit:
  "(g, m, r) \<in> set (rx_match (Lit l) s) \<longleftrightarrow> g = [] \<and> m = l \<and> s = l @ r"
  by (auto simp: startswith_def) (metis append_take_drop_id)

lemma upt_set_le: "{0 ..< Suc n} = {k. k \<le> n}" "{1 ..< Suc n} = {k. 1 \<le> k \<and> k \<le> n}"
  by auto

lemma in_rx_match_Star:
  "(g, m, r) \<in> set (rx_match (Star c) s) \<longleftrightarrow> g = [] \<and> s = m @ r \<and> list_all (in_class c) m"
proof -
  have "set (rx_match (Star c) s) =
      (\<lambda>k. ([], take k s, drop k s)) ` {k. k \<le> length (takeWhile (in_class c) s)}"
    by (simp only: rx_match.simps set_map set_rev set_upt upt_set_le)
  then have "(g, m, r) \<in> set (rx_match (Star c) s) \<longleftrightarrow>
      g = [] \<and> (\<exists>k \<le> length (takeWhile (in_class c) s). m = take k s \<and> r = drop k s)"
    by (simp only: image_iff mem_Collect_eq prod.inject) blast
  then show ?thesis by (simp only: prefix_class_iff)
qed

lemma in_rx_match_Plus:
  "(g, m, r) \<in> set (rx_match (Plus c) s) \<longleftrightarrow>
     g = [] \<and> s = m @ r \<and> list_all (in_class c) m \<and> m \<noteq> []"
proof -
  have "set (rx_match (Plus c) s) =
      (\<lambda>k. ([], take k s, drop k s)) ` {k. 1 \<le> k \<and> k \<le> length (takeWhile (in_class c) s)}"
    by (simp only: rx_match.simps set_map set_rev set_upt upt_set_le)
  then have "(g, m, r) \<in> set (rx_match (Plus c) s) \<longleftrightarrow>
      g = [] \<and> (\<exists>k \<le> length (takeWhile (in_class c) s). 1 \<le> k \<and> m = take k s \<and> r = drop k s)"
    by (simp only: image_iff mem_Collect_eq prod.inject) blast
  also have "\<dots> \<longleftrightarrow> g = [] \<and> m \<noteq> [] \<and>
      (\<exists>k \<le> length (takeWhile (in_class c) s). m = take k s \<and> r = drop k s)"
  proof (cases s)
    case Nil
    then show ?thesis by simp
  next
    case (Cons a t)
    have "take k s \<noteq> [] \<longleftrightarrow> 1 \<le> k" for k using Cons by (cases k) auto
    then show ?thesis by metis
  qed
  finally show ?thesis by (simp only: prefix_class_iff) blast
qed

lemma in_rx_match_Seq:
  "(g, m, r) \<in> set (rx_match (Seq a b) s) \<longleftrightarrow>
     (\<exists>g1 m1 r1 g2 m2. (g1, m1, r1) \<in> set (rx_match a s) \<and> (g2, m2, r) \<in> set (rx_match b r1) \<and>
        g = g1 @ g2 \<and> m = m1 @ m2)"
proof
  assume "(g, m, r) \<in> set (rx_match (Seq a b) s)"
  then show "\<exists>g1 m1 r1 g2 m2. (g1, m1, r1) \<in> set (rx_match a s) \<and>
      (g2, m2, r) \<in> set (rx_match b r1) \<and> g = g1 @ g2 \<and> m = m1 @ m2"
    by auto blast
next
  assume "\<exists>g1 m1 r1 g2 m2. (g1, m1, r1) \<in> set (rx_match a s) \<and>
      (g2, m2, r) \<in> set (rx_match b r1) \<and> g = g1 @ g2 \<and> m = m1 @ m2"
  then obtain g1 m1 r1 g2 m2 where a: "(g1, m1, r1) \<in> set (rx_match a s)"
    and b: "(g2, m2, r) \<in> set (rx_match b r1)" and e: "g = g1 @ g2" "m = m1 @ m2"
    by blast
  have "(g1 @ g2, m1 @ m2, r) \<in>
      (\<lambda>(g2, m2, r2). (g1 @ g2, m1 @ m2, r2)) ` set (rx_match b r1)"
    using b by (force simp: image_iff)
  with a e show "(g, m, r) \<in> set (rx_match (Seq a b) s)"
    by (simp only: rx_match.simps set_concat set_map) force
qed

lemma in_rx_match_Grp:
  "(g, m, r) \<in> set (rx_match (Grp a) s) \<longleftrightarrow> (\<exists>g1. (g1, m, r) \<in> set (rx_match a s) \<and> g = m # g1)"
  by (force simp: image_iff)

declare rx_match.simps [simp del]

lemmas in_rx_match = in_rx_match_Lit in_rx_match_Star in_rx_match_Plus in_rx_match_Seq
  in_rx_match_Grp

lemma in_Seq_Star:
  "(g, m, r) \<in> set (rx_match (Seq (Star k) q) s) \<longleftrightarrow>
     (\<exists>ws r1 m2. s = ws @ r1 \<and> list_all (in_class k) ws \<and> (g, m2, r) \<in> set (rx_match q r1) \<and>
        m = ws @ m2)"
  by (simp only: in_rx_match_Seq in_rx_match_Star) auto

lemma in_Seq_Lit:
  "(g, m, r) \<in> set (rx_match (Seq (Lit l) q) s) \<longleftrightarrow>
     (\<exists>r1 m2. s = l @ r1 \<and> (g, m2, r) \<in> set (rx_match q r1) \<and> m = l @ m2)"
  by (simp only: in_rx_match_Seq in_rx_match_Lit) auto

lemma in_Seq_Grp_Plus:
  "(g, m, r) \<in> set (rx_match (Seq (Grp (Plus k)) q) s) \<longleftrightarrow>
     (\<exists>ds r1 g2 m2. s = ds @ r1 \<and> list_all (in_class k) ds \<and> ds \<noteq> [] \<and>
        (g2, m2, r) \<in> set (rx_match q r1) \<and> g = ds # g2 \<and> m = ds @ m2)"
  by (simp only: in_rx_match_Seq in_rx_match_Grp in_rx_match_Plus) auto

lemma in_class_eq [simp]:
  "in_class CSpace = is_space" "in_class CDigit = is_digit" "in_class CWord = is_word"
  by (rule ext, simp)+

lemma Seq_StarI:
  "list_all (in_class k) ws \<Longrightarrow> (g, m2, r) \<in> set (rx_match q r1) \<Longrightarrow>
   (g, ws @ m2, r) \<in> set (rx_match (Seq (Star k) q) (ws @ r1))"
  unfolding in_Seq_Star by blast

lemma Seq_LitI:
  "(g, m2, r) \<in> set (rx_match q r1) \<Longrightarrow> (g, l @ m2, r) \<in> set (rx_match (Seq (Lit l) q) (l @ r1))"
  unfolding in_Seq_Lit by blast

lemma Seq_Grp_PlusI:
  "list_all (in_class k) ds \<Longrightarrow> ds \<noteq> [] \<Longrightarrow> (g2, m2, r) \<in> set (rx_match q r1) \<Longrightarrow>
   (ds # g2, ds @ m2, r) \<in> set (rx_match (Seq (Grp (Plus k)) q) (ds @ r1))"
  unfolding in_Seq_Grp_Plus by blast

lemma in_assign_tail:
  "(g, m, r) \<in> set (rx_match assign_tail s) \<longleftrightarrow>
     (\<exists>ws1 ws2 ds ws3. list_all is_space ws1 \<and> list_all is_space ws2 \<and> list_all is_space ws3 \<and>
        list_all is_digit ds \<and> ds \<noteq> [] \<and> g = [ds] \<and>
        m = ws1 @ ''='' @ ws2 @ ds @ ws3 @ '';'' \<and> s = m @ r)"
  (is "?L \<longleftrightarrow> ?R")
proof
  assume ?L
  then obtain ws1 r1 m1 where 1: "s = ws1 @ r1" "list_all is_space ws1" "m = ws1 @ m1"
    and a: "(g, m1, r) \<in> set (rx_match (Seq (Lit ''='') (Seq (Star CSpace)
     (Seq (Grp (Plus CDigit)) (Seq (Star CSpace) (Lit '';''))))) r1)"
    unfolding assign_tail_def in_Seq_Star[of g m r] in_class.simps by blast
  from a obtain r2 m2 where 2: "r1 = ''='' @ r2" "m1 = ''='' @ m2"
    and b: "(g, m2, r) \<in> set (rx_match (Seq (Star CSpace)
     (Seq (Grp (Plus CDigit)) (Seq (Star CSpace) (Lit '';'')))) r2)"
    unfolding in_Seq_Lit[of g m1 r] by blast
  from b obtain ws2 r3 m3 where 3: "r2 = ws2 @ r3" "list_all is_space ws2" "m2 = ws2 @ m3"
    and c: "(g, m3, r) \<in> set (rx_match (Seq (Grp (Plus CDigit)) (Seq (Star CSpace) (Lit '';''))) r3)"
    unfolding in_Seq_Star[of g m2 r] in_class.simps by blast
  from c obtain ds r4 g4 m4 where 4: "r3 = ds @ r4" "list_all is_digit ds" "ds \<noteq> []"
      "g = ds # g4" "m3 = ds @ m4"
    and d: "(g4, m4, r) \<in> set (rx_match (Seq (Star CSpace) (Lit '';'')) r4)"
    unfolding in_Seq_Grp_Plus[of g m3 r] in_class.simps by blast
  from d obtain ws3 r5 m5 where 5: "r4 = ws3 @ r5" "list_all is_space ws3" "m4 = ws3 @ m5"
    and e: "(g4, m5, r) \<in> set (rx_match (Lit '';'') r5)"
    unfolding in_Seq_Star[of g4 m4 r] in_class.simps by blast
  from e have 6: "g4 = []" "m5 = '';''" "r5 = '';'' @ r"
    unfolding in_rx_match_Lit by blast+
  show ?R
    apply (rule exI[of _ ws1], rule exI[of _ ws2], rule exI[of _ ds], rule exI[of _ ws3])
    using 1 2 3 4 5 6 by simp
next
  assume ?R
  then obtain ws1 ws2 ds ws3 where h: "list_all is_space ws1" "list_all is_space ws2"
    "list_all is_space ws3" "list_all is_digit ds" "ds \<noteq> []" "g = [ds]"
    "m = ws1 @ ''='' @ ws2 @ ds @ ws3 @ '';''" "s = m @ r"
    by blast
  have e: "([], '';'', r) \<in> set (rx_match (Lit '';'') ('';'' @ r))"
    unfolding in_rx_match_Lit by simp
  have "([ds], ws1 @ ''='' @ ws2 @ ds @ ws3 @ '';'', r) \<in> set (rx_match assign_tail
     (ws1 @ ''='' @ ws2 @ ds @ ws3 @ '';'' @ r))"
    unfolding assign_tail_def
    by (intro Seq_StarI Seq_LitI Seq_Grp_PlusI e) (simp_all add: h)
  with h show ?L by simp
qed

lemma class_facts:
  "is_word c \<Longrightarrow> \<not> is_space c" "is_digit c \<Longrightarrow> \<not> is_space c" "is_digit c \<Longrightarrow> is_word c"
  "\<not> is_space CHR ''=''" "\<not> is_word CHR ''=''" "\<not> is_digit CHR ''=''"
  "\<not> is_space CHR '';''" "\<not> is_word CHR '';''" "\<not> is_digit CHR '';''"
  by (auto simp: is_word_def is_space_def is_digit_def code_def Let_def)

lemma has_spr_iff: "has_spr v \<longleftrightarrow> (\<exists>a b. v = a @ ''spr'' @ b)"
proof (induction v)
  case Nil
  then show ?case by simp
next
  case (Cons c cs)
  have "startswith (c # cs) ''spr'' \<longleftrightarrow> (\<exists>b. c # cs = ''spr'' @ b)"
    by (auto simp: startswith_def) (metis append_take_drop_id append_Cons append_Nil)
  moreover have "(\<exists>a b. c # cs = a @ ''spr'' @ b) \<longleftrightarrow>
      (\<exists>b. c # cs = ''spr'' @ b) \<or> (\<exists>a b. cs = a @ ''spr'' @ b)"
  proof
    assume "\<exists>a b. c # cs = a @ ''spr'' @ b"
    then obtain a b where ab: "c # cs = a @ ''spr'' @ b" by blast
    show "(\<exists>b. c # cs = ''spr'' @ b) \<or> (\<exists>a b. cs = a @ ''spr'' @ b)"
    proof (cases a)
      case Nil
      with ab show ?thesis by auto
    next
      case (Cons x a')
      with ab have "cs = a' @ ''spr'' @ b" by simp
      then show ?thesis by blast
    qed
  next
    assume "(\<exists>b. c # cs = ''spr'' @ b) \<or> (\<exists>a b. cs = a @ ''spr'' @ b)"
    then show "\<exists>a b. c # cs = a @ ''spr'' @ b"
    proof
      assume "\<exists>b. c # cs = ''spr'' @ b"
      then show ?thesis by (metis append_Nil)
    next
      assume "\<exists>a b. cs = a @ ''spr'' @ b"
      then obtain a b where "cs = a @ ''spr'' @ b" by blast
      then have "c # cs = (c # a) @ ''spr'' @ b" by simp
      then show ?thesis by blast
    qed
  qed
  ultimately show ?case using Cons.IH by simp
qed

lemma span_unique:
  assumes "list_all P a" "list_all P a'" "a @ x = a' @ x'"
    and "x = [] \<or> \<not> P (hd x)" "x' = [] \<or> \<not> P (hd x')"
  shows "a = a' \<and> x = x'"
proof -
  have "takeWhile P (a @ x) = a"
    using assms(1,4) by (cases x) (auto simp: list_all_iff takeWhile_append2)
  moreover have "takeWhile P (a' @ x') = a'"
    using assms(2,5) by (cases x') (auto simp: list_all_iff takeWhile_append2)
  ultimately have "a = a'" using assms(3) by simp
  with assms(3) show ?thesis by simp
qed

lemma tail_unique:
  assumes "assign_parts ws1 ws2 ds ws3" "assign_parts ws1' ws2' ds' ws3'"
    and "ws1 @ ''='' @ ws2 @ ds @ ws3 @ '';'' @ r = ws1' @ ''='' @ ws2' @ ds' @ ws3' @ '';'' @ r'"
  shows "ws1 = ws1' \<and> ws2 = ws2' \<and> ds = ds' \<and> ws3 = ws3' \<and> r = r'"
proof -
  have 1: "ws1 = ws1' \<and> ''='' @ ws2 @ ds @ ws3 @ '';'' @ r = ''='' @ ws2' @ ds' @ ws3' @ '';'' @ r'"
    using assms by (intro span_unique[of is_space]) (auto simp: assign_parts_def class_facts)
  have 2: "ws2 = ws2' \<and> ds @ ws3 @ '';'' @ r = ds' @ ws3' @ '';'' @ r'"
    using assms(1,2) 1
    by (intro span_unique[of is_space])
       (auto simp: assign_parts_def class_facts list_all_iff neq_Nil_conv)
  have 3: "ds = ds' \<and> ws3 @ '';'' @ r = ws3' @ '';'' @ r'"
    using assms(1,2) 2
    by (intro span_unique[of is_digit])
       (auto simp: assign_parts_def class_facts list_all_iff neq_Nil_conv hd_append)
  have 4: "ws3 = ws3' \<and> '';'' @ r = '';'' @ r'"
    using assms(1,2) 3
    by (intro span_unique[of is_space]) (auto simp: assign_parts_def class_facts)
  from 1 2 3 4 show ?thesis by simp
qed

lemma tail_hd_not_word:
  assumes "list_all is_space ws1"
  shows "\<not> is_word (hd (ws1 @ ''='' @ t))"
  using assms by (cases ws1) (auto simp: class_facts)

lemma word_sprite_index: "list_all is_word ''sprite_index''" "list_all is_word ''spr''"
  by (simp_all add: is_word_def code_def)

lemma var_name_word: "var_name v var \<Longrightarrow> list_all is_word var"
  using word_sprite_index by (auto simp: var_name_def spr_name_def)

lemma in_spr_var:
  "(g, var, r1) \<in> set (rx_match spr_var s) \<longleftrightarrow> g = [] \<and> s = var @ r1 \<and> spr_name var"
  (is "?L \<longleftrightarrow> ?R")
proof
  assume ?L
  then obtain a r2 m2 where 1: "s = a @ r2" "list_all is_word a" "var = a @ m2"
    and x: "(g, m2, r1) \<in> set (rx_match (Seq (Lit ''spr'') (Star CWord)) r2)"
    unfolding spr_var_def in_Seq_Star[of g var r1] in_class_eq by blast
  from x obtain r3 m3 where 2: "r2 = ''spr'' @ r3" "m2 = ''spr'' @ m3"
    and y: "(g, m3, r1) \<in> set (rx_match (Star CWord) r3)"
    unfolding in_Seq_Lit[of g m2 r1] by blast
  from y have 3: "g = []" "r3 = m3 @ r1" "list_all is_word m3"
    unfolding in_rx_match_Star in_class_eq by blast+
  have "has_spr var" unfolding has_spr_iff using 1 2 by blast
  moreover have "list_all is_word var" using 1 2 3 word_sprite_index by simp
  ultimately show ?R using 1 2 3 by (simp add: spr_name_def)
next
  assume ?R
  then obtain a b where v: "var = a @ ''spr'' @ b" and w: "list_all is_word var"
    and g: "g = []" and s: "s = var @ r1"
    unfolding spr_name_def has_spr_iff by blast
  have "([], b, r1) \<in> set (rx_match (Star CWord) (b @ r1))"
    unfolding in_rx_match_Star using w v by simp
  then have "([], a @ ''spr'' @ b, r1) \<in> set (rx_match spr_var (a @ ''spr'' @ b @ r1))"
    unfolding spr_var_def using w v by (intro Seq_StarI Seq_LitI) simp_all
  with v g s show ?L by simp
qed

lemma in_exact_var:
  "(g, var, r1) \<in> set (rx_match exact_var s) \<longleftrightarrow> g = [] \<and> s = var @ r1 \<and> var = ''sprite_index''"
  unfolding exact_var_def in_rx_match_Lit by auto

lemma vars_distinct: "exact_var \<noteq> spr_var"
  by (simp add: exact_var_def spr_var_def)

lemma in_var:
  assumes "v \<in> set SPRITE_VARS"
  shows "(g, var, r1) \<in> set (rx_match v s) \<longleftrightarrow> g = [] \<and> s = var @ r1 \<and> var_name v var"
  using assms vars_distinct
  by (auto simp: SPRITE_VARS_def var_name_def in_exact_var in_spr_var)

lemma in_pattern:
  assumes "v \<in> set SPRITE_VARS"
  shows "(g, m, r) \<in> set (rx_match (pattern v) s) \<longleftrightarrow>
     (\<exists>var ws1 ws2 ds ws3. var_name v var \<and> assign_parts ws1 ws2 ds ws3 \<and> g = [var, ds] \<and>
        m = assign_text var ws1 ws2 ds ws3 \<and> s = m @ r)"
  (is "?L \<longleftrightarrow> ?R")
proof
  assume ?L
  then obtain g1 var r1 g2 m2 where a: "(g1, var, r1) \<in> set (rx_match (Grp v) s)"
    and b: "(g2, m2, r) \<in> set (rx_match assign_tail r1)" and e: "g = g1 @ g2" "m = var @ m2"
    unfolding pattern_def in_rx_match_Seq[of g m r] by blast
  from a have 1: "g1 = [var]" "s = var @ r1" "var_name v var"
    unfolding in_rx_match_Grp in_var[OF assms] by auto
  from b obtain ws1 ws2 ds ws3 where 2: "assign_parts ws1 ws2 ds ws3" "g2 = [ds]"
    "m2 = ws1 @ ''='' @ ws2 @ ds @ ws3 @ '';''" "r1 = m2 @ r"
    unfolding in_assign_tail assign_parts_def by blast
  show ?R
    apply (rule exI[of _ var], rule exI[of _ ws1], rule exI[of _ ws2], rule exI[of _ ds],
        rule exI[of _ ws3])
    using 1 2 e by (simp add: assign_text_def)
next
  assume ?R
  then obtain var ws1 ws2 ds ws3 where h: "var_name v var" "assign_parts ws1 ws2 ds ws3"
    "g = [var, ds]" "m = assign_text var ws1 ws2 ds ws3" "s = m @ r"
    by blast
  let ?t = "ws1 @ ''='' @ ws2 @ ds @ ws3 @ '';''"
  have a: "([var], var, ?t @ r) \<in> set (rx_match (Grp v) (var @ ?t @ r))"
    unfolding in_rx_match_Grp in_var[OF assms] using h(1) by simp
  have b: "([ds], ?t, r) \<in> set (rx_match assign_tail (?t @ r))"
    unfolding in_assign_tail using h(2) by (auto simp: assign_parts_def)
  have "([var] @ [ds], var @ ?t, r) \<in> set (rx_match (pattern v) (var @ ?t @ r))"
    unfolding pattern_def in_rx_match_Seq[of "[var] @ [ds]"] using a b by blast
  with h show ?L by (simp add: assign_text_def)
qed

lemma assign_unique:
  assumes "list_all is_word var" "list_all is_word var'"
    and "assign_parts ws1 ws2 ds ws3" "assign_parts ws1' ws2' ds' ws3'"
    and "assign_text var ws1 ws2 ds ws3 @ r = assign_text var' ws1' ws2' ds' ws3' @ r'"
  shows "var = var' \<and> ws1 = ws1' \<and> ws2 = ws2' \<and> ds = ds' \<and> ws3 = ws3' \<and> r = r'"
proof -
  have "var = var' \<and> ws1 @ ''='' @ ws2 @ ds @ ws3 @ '';'' @ r = ws1' @ ''='' @ ws2' @ ds' @ ws3' @ '';'' @ r'"
    using assms(1,2,5) tail_hd_not_word[of ws1] tail_hd_not_word[of ws1'] assms(3,4)
    by (intro span_unique[of is_word]) (auto simp: assign_text_def assign_parts_def)
  then show ?thesis using tail_unique[OF assms(3,4), of r r'] by blast
qed

lemma pattern_deterministic:
  assumes "v \<in> set SPRITE_VARS"
    and "x \<in> set (rx_match (pattern v) s)" "y \<in> set (rx_match (pattern v) s)"
  shows "x = y"
proof -
  obtain g m r where x: "x = (g, m, r)" by (cases x)
  obtain g' m' r' where y: "y = (g', m', r')" by (cases y)
  from assms(2) x obtain var ws1 ws2 ds ws3 where 1: "var_name v var"
    "assign_parts ws1 ws2 ds ws3" "g = [var, ds]" "m = assign_text var ws1 ws2 ds ws3" "s = m @ r"
    unfolding in_pattern[OF assms(1)] x by blast
  from assms(3) y obtain var' ws1' ws2' ds' ws3' where 2: "var_name v var'"
    "assign_parts ws1' ws2' ds' ws3'" "g' = [var', ds']" "m' = assign_text var' ws1' ws2' ds' ws3'"
    "s = m' @ r'"
    unfolding in_pattern[OF assms(1)] y by blast
  have "assign_text var ws1 ws2 ds ws3 @ r = assign_text var' ws1' ws2' ds' ws3' @ r'"
    using 1 2 by simp
  from assign_unique[OF var_name_word[OF 1(1)] var_name_word[OF 2(1)] 1(2) 2(2) this]
  show ?thesis using 1 2 x y by simp
qed

lemma match_at_None_iff: "match_at p s = None \<longleftrightarrow> set (rx_match p s) = {}"
  by (cases "rx_match p s") (auto simp: match_at_def)

lemma match_at_in_iff:
  assumes "v \<in> set SPRITE_VARS"
  shows "match_at (pattern v) s = Some x \<longleftrightarrow> x \<in> set (rx_match (pattern v) s)"
proof (cases "rx_match (pattern v) s")
  case Nil
  then show ?thesis by (simp add: match_at_def)
next
  case (Cons y ys)
  then have "y \<in> set (rx_match (pattern v) s)" by simp
  with pattern_deterministic[OF assms] have "x \<in> set (rx_match (pattern v) s) \<longleftrightarrow> x = y"
    by blast
  with Cons show ?thesis by (auto simp: match_at_def)
qed

lemma match_at_pattern_iff:
  assumes "v \<in> set SPRITE_VARS"
  shows "match_at (pattern v) s = Some (g, m, r) \<longleftrightarrow>
     (\<exists>var ws1 ws2 ds ws3. var_name v var \<and> assign_parts ws1 ws2 ds ws3 \<and> g = [var, ds] \<and>
        m = assign_text var ws1 ws2 ds ws3 \<and> s = m @ r)"
  unfolding match_at_in_iff[OF assms] in_pattern[OF assms] ..

lemma match_at_assign:
  assumes "v \<in> set SPRITE_VARS" "var_name v var" "assign_parts ws1 ws2 ds ws3"
  shows "match_at (pattern v) (assign_text var ws1 ws2 ds ws3 @ r) =
     Some ([var, ds], assign_text var ws1 ws2 ds ws3, r)"
  unfolding match_at_pattern_iff[OF assms(1)] using assms(2,3) by blast

lemma var_name_nonempty: "var_name v var \<Longrightarrow> var \<noteq> []"
  by (auto simp: var_name_def spr_name_def)

lemma assign_text_no_semicolon:
  assumes "list_all is_word var" "assign_parts ws1 ws2 ds ws3"
  shows "CHR '';'' \<notin> set (var @ ws1 @ ''='' @ ws2 @ ds @ ws3)"
  using assms class_facts(7,8,9) by (auto simp: assign_parts_def list_all_iff)

lemma match_at_rest_indep:
  assumes "v \<in> set SPRITE_VARS" "match_at (pattern v) (m @ r) = Some (g, m, r)"
  shows "match_at (pattern v) (m @ r') = Some (g, m, r')"
  using assms(2) unfolding match_at_pattern_iff[OF assms(1)] by auto

lemma match_at_shape:
  assumes "v \<in> set SPRITE_VARS" "match_at (pattern v) s = Some (g, m, r)"
  shows "\<exists>x. m = x @ '';'' \<and> CHR '';'' \<notin> set x \<and> x \<noteq> [] \<and> is_word (hd x) \<and> s = x @ '';'' @ r"
proof -
  from assms(2) obtain var ws1 ws2 ds ws3 where h: "var_name v var" "assign_parts ws1 ws2 ds ws3"
    "m = assign_text var ws1 ws2 ds ws3" "s = m @ r"
    unfolding match_at_pattern_iff[OF assms(1)] by blast
  let ?x = "var @ ws1 @ ''='' @ ws2 @ ds @ ws3"
  have "m = ?x @ '';''" using h(3) by (simp add: assign_text_def)
  moreover have "CHR '';'' \<notin> set ?x"
    using assign_text_no_semicolon[OF var_name_word[OF h(1)] h(2)] .
  moreover have "?x \<noteq> []" using var_name_nonempty[OF h(1)] by simp
  moreover have "is_word (hd ?x)"
    using var_name_nonempty[OF h(1)] var_name_word[OF h(1)] by (cases var) auto
  ultimately show ?thesis using h(4) by auto
qed

lemma match_at_nonempty:
  assumes "v \<in> set SPRITE_VARS" "match_at (pattern v) s = Some (g, m, r)"
  shows "m \<noteq> []"
  using match_at_shape[OF assms] by auto

lemma no_semicolon_no_match:
  assumes "v \<in> set SPRITE_VARS" "CHR '';'' \<notin> set s"
  shows "match_at (pattern v) s = None"
proof (cases "match_at (pattern v) s")
  case None
  then show ?thesis .
next
  case (Some x)
  obtain g m r where "x = (g, m, r)" by (cases x)
  with Some match_at_shape[OF assms(1), of s g m r] assms(2) show ?thesis by auto
qed

lemma not_word_no_match:
  assumes "v \<in> set SPRITE_VARS" "\<not> is_word c"
  shows "match_at (pattern v) (c # s) = None"
proof (cases "match_at (pattern v) (c # s)")
  case None
  then show ?thesis .
next
  case (Some x)
  obtain g m r where "x = (g, m, r)" by (cases x)
  with Some match_at_shape[OF assms(1), of "c # s" g m r] obtain y where
    "y \<noteq> []" "is_word (hd y)" "c # s = y @ '';'' @ r" by auto
  with assms(2) show ?thesis by (cases y) auto
qed

lemma re_sub_Nil:
  assumes "v \<in> set SPRITE_VARS"
  shows "re_sub (pattern v) f [] = ([], [])"
  using no_semicolon_no_match[OF assms, of "[]"] by (simp add: re_sub.simps)

lemma re_sub_skip:
  assumes "match_at p (c # cs) = None"
  shows "re_sub p f (c # cs) = (c # fst (re_sub p f cs), snd (re_sub p f cs))"
  using assms by (subst re_sub.simps) (simp add: Let_def)

lemma re_sub_hit:
  assumes "match_at p s = Some (g, m, r)" "m \<noteq> []"
  shows "re_sub p f s = (fst (f (g, m, r)) @ fst (re_sub p f r), snd (f (g, m, r)) @ snd (re_sub p f r))"
  using assms by (subst re_sub.simps) (simp add: Let_def)

lemma re_sub_prefix:
  assumes "\<And>k. k < length pre \<Longrightarrow> match_at p (drop k pre @ s) = None"
  shows "re_sub p f (pre @ s) = (pre @ fst (re_sub p f s), snd (re_sub p f s))"
  using assms
proof (induction pre)
  case Nil
  then show ?case by simp
next
  case (Cons c pre)
  have 0: "match_at p (c # pre @ s) = None" using Cons.prems[of 0] by simp
  have "\<And>k. k < length pre \<Longrightarrow> match_at p (drop k pre @ s) = None"
    using Cons.prems[of "Suc k" for k] by simp
  from Cons.IH[OF this] re_sub_skip[OF 0, of f] show ?case by simp
qed

lemma re_sub_no_semicolon:
  assumes "v \<in> set SPRITE_VARS" "CHR '';'' \<notin> set s"
  shows "re_sub (pattern v) f s = (s, [])"
proof -
  have "\<And>k. k < length s \<Longrightarrow> match_at (pattern v) (drop k s @ []) = None"
    using no_semicolon_no_match[OF assms(1)] assms(2) by (auto dest: in_set_dropD)
  from re_sub_prefix[of s "pattern v" "[]" f, OF this] show ?thesis
    by (simp add: re_sub_Nil[OF assms(1)])
qed

lemma re_sub_spaces:
  assumes "v \<in> set SPRITE_VARS" "list_all is_space ind"
  shows "re_sub (pattern v) f (ind @ s) = (ind @ fst (re_sub (pattern v) f s), snd (re_sub (pattern v) f s))"
proof (rule re_sub_prefix)
  fix k assume "k < length ind"
  then obtain c t where d: "drop k ind = c # t" by (cases "drop k ind") auto
  then have "c \<in> set ind" by (metis in_set_dropD list.set_intros(1))
  with assms(2) have "\<not> is_word c" by (auto simp: list_all_iff class_facts)
  with not_word_no_match[OF assms(1)] d show "match_at (pattern v) (drop k ind @ s) = None"
    by simp
qed

lemma repl_rest_indep: "repl sm orig idx (g, m, r) = repl sm orig idx (g, m, r')"
  by (simp add: repl_def split: option.splits)

lemma repl_Some:
  "sm ds = Some x \<Longrightarrow> repl sm orig idx ([var, ds], m, r) =
     (var @ '' = '' @ x @ '';'', [(orig, var @ '' = '' @ x @ '';'', idx)])"
  by (simp add: repl_def Let_def)

lemma repl_None: "sm ds = None \<Longrightarrow> repl sm orig idx ([var, ds], m, r) = (m, [])"
  by (simp add: repl_def)

lemma re_sub_append_tail:
  assumes "v \<in> set SPRITE_VARS" "CHR '';'' \<notin> set t"
    and f: "\<And>g m r r'. f (g, m, r) = f (g, m, r')"
  shows "re_sub (pattern v) f (s @ t) =
     (fst (re_sub (pattern v) f s) @ t, snd (re_sub (pattern v) f s))"
proof (induction "length s" arbitrary: s rule: less_induct)
  case less
  show ?case
  proof (cases "match_at (pattern v) (s @ t)")
    case None
    show ?thesis
    proof (cases s)
      case Nil
      then show ?thesis
        by (simp add: re_sub_Nil[OF assms(1)] re_sub_no_semicolon[OF assms(1,2)])
    next
      case (Cons c cs)
      have n: "match_at (pattern v) (c # cs) = None"
      proof (cases "match_at (pattern v) (c # cs)")
        case None
        then show ?thesis .
      next
        case (Some x)
        obtain g m r where x: "x = (g, m, r)" by (cases x)
        from Some x match_at_split[of "pattern v" "c # cs" g m r] have "c # cs = m @ r" by simp
        with Some x match_at_rest_indep[OF assms(1), of m r g "r @ t"]
        have "match_at (pattern v) (s @ t) = Some (g, m, r @ t)" using Cons by simp
        with None show ?thesis by simp
      qed
      have "length cs < length s" using Cons by simp
      from less[OF this] re_sub_skip[OF n, of f] re_sub_skip[of "pattern v" c "cs @ t" f] None Cons
      show ?thesis by simp
    qed
  next
    case (Some x)
    obtain g m r where x: "x = (g, m, r)" by (cases x)
    from match_at_shape[OF assms(1), of "s @ t" g m r] Some x obtain y where
      y: "m = y @ '';''" "CHR '';'' \<notin> set y" "s @ t = y @ '';'' @ r" by auto
    have "\<exists>r0. s = m @ r0 \<and> r = r0 @ t"
    proof -
      from y(3) have e: "s @ t = m @ r" using y(1) by simp
      show ?thesis
      proof (cases "length m \<le> length s")
        case True
        then show ?thesis using e
          by (metis append_eq_append_conv_if append_take_drop_id)
      next
        case False
        then have "take (length m) (s @ t) = s @ take (length m - length s) t" by simp
        moreover have "take (length m) (s @ t) = m" using e by simp
        ultimately have "m = s @ take (length m - length s) t" by simp
        moreover have "take (length m - length s) t \<noteq> []" using False
          by (metis calculation append_Nil2 le_refl)
        ultimately have "last m \<in> set t"
          by (metis in_set_takeD last_appendR last_in_set)
        with y(1) assms(2) show ?thesis by simp
      qed
    qed
    then obtain r0 where r0: "s = m @ r0" "r = r0 @ t" by blast
    have ms: "match_at (pattern v) s = Some (g, m, r0)"
      using match_at_rest_indep[OF assms(1), of m r g r0] Some x r0 by simp
    have ne: "m \<noteq> []" using y(1) by simp
    have "length r0 < length s" using r0 ne by simp
    from less[OF this] re_sub_hit[OF ms ne, of f] re_sub_hit[of "pattern v" "s @ t" g m r f] Some x ne r0
    show ?thesis using f[of g m "r0 @ t" r0] by simp
  qed
qed

lemma takeWhile_stop: "list_all P a \<Longrightarrow> x = [] \<or> \<not> P (hd x) \<Longrightarrow> takeWhile P (a @ x) = a"
  by (cases x) (auto simp: list_all_iff takeWhile_append2)

lemma dropWhile_stop: "list_all P a \<Longrightarrow> x = [] \<or> \<not> P (hd x) \<Longrightarrow> dropWhile P (a @ x) = x"
  by (cases x) (auto simp: list_all_iff dropWhile_append)

lemma trailing_key_assign:
  assumes "assign_parts ws1 ws2 ds ws3"
  shows "trailing_key (pre @ ws1 @ ''='' @ ws2 @ ds @ ws3) = ds"
proof -
  from assms have h: "list_all is_space ws2" "list_all is_space ws3" "list_all is_digit ds" "ds \<noteq> []"
    by (auto simp: assign_parts_def)
  have r: "rev (pre @ ws1 @ ''='' @ ws2 @ ds @ ws3) = rev ws3 @ rev ds @ rev ws2 @ ''='' @ rev ws1 @ rev pre"
    by simp
  have "\<not> is_space (hd (rev ds))" using h(3,4)
    by (metis class_facts(2) hd_rev last_in_set list_all_iff)
  then have 1: "dropWhile is_space (rev ws3 @ rev ds @ rev ws2 @ ''='' @ rev ws1 @ rev pre)
      = rev ds @ rev ws2 @ ''='' @ rev ws1 @ rev pre"
    using h(2,4) by (intro dropWhile_stop) (auto simp: list_all_iff)
  have "\<not> is_digit (hd (rev ws2 @ ''='' @ rev ws1 @ rev pre))"
    using h(1) by (cases "rev ws2") (auto simp: class_facts list_all_iff)
  then have 2: "takeWhile is_digit (rev ds @ rev ws2 @ ''='' @ rev ws1 @ rev pre) = rev ds"
    using h(3) by (intro takeWhile_stop) (auto simp: list_all_iff)
  show ?thesis unfolding trailing_key_def r 1 2 by simp
qed

lemma seg_match:
  assumes "v \<in> set SPRITE_VARS" "CHR '';'' \<notin> set y" "k \<le> length y"
    and "match_at (pattern v) (drop k y @ '';'' @ z) = Some (g, m, r)"
  shows "m = drop k y @ '';'' \<and> r = z \<and> trailing_key y \<noteq> [] \<and>
     (\<exists>var t. g = [var, trailing_key y] \<and> var_name v var \<and> drop k y = var @ t)"
proof -
  from assms(4) obtain var ws1 ws2 ds ws3 where h: "var_name v var" "assign_parts ws1 ws2 ds ws3"
    "g = [var, ds]" "m = assign_text var ws1 ws2 ds ws3" "drop k y @ '';'' @ z = m @ r"
    unfolding match_at_pattern_iff[OF assms(1)] by blast
  let ?x = "var @ ws1 @ ''='' @ ws2 @ ds @ ws3"
  have nx: "CHR '';'' \<notin> set ?x"
    using assign_text_no_semicolon[OF var_name_word[OF h(1)] h(2)] .
  have e: "drop k y @ ('';'' @ z) = ?x @ ('';'' @ r)" using h(4,5) by (simp add: assign_text_def)
  have "drop k y = ?x \<and> '';'' @ z = '';'' @ r"
    using nx assms(2) e
    by (intro span_unique[of "\<lambda>c. c \<noteq> CHR '';''"]) (auto simp: list_all_iff dest: in_set_dropD)
  then have d: "drop k y = ?x" and rz: "r = z" by simp_all
  have "y = take k y @ ?x" using d by (metis append_take_drop_id)
  then have "trailing_key y = trailing_key ((take k y @ var) @ ws1 @ ''='' @ ws2 @ ds @ ws3)"
    by simp
  also have "\<dots> = ds" by (rule trailing_key_assign[OF h(2)])
  finally have tk: "trailing_key y = ds" .
  have "ds \<noteq> []" using h(2) by (simp add: assign_parts_def)
  with tk d rz h show ?thesis by (auto simp: assign_text_def)
qed

lemma semicolon_no_match:
  assumes "v \<in> set SPRITE_VARS"
  shows "match_at (pattern v) ('';'' @ z) = None"
  using not_word_no_match[OF assms, of "CHR '';''" z] class_facts(8) by simp

lemma re_sub_segment:
  fixes sm :: sprite_map and orig :: string and idx :: nat
  assumes v: "v \<in> set SPRITE_VARS" and y: "CHR '';'' \<notin> set y"
  defines "R \<equiv> re_sub (pattern v) (repl sm orig idx)"
  shows "(R (y @ '';'' @ z) = (y @ '';'' @ fst (R z), snd (R z)) \<and>
          (\<forall>k \<le> length y. \<forall>g m r. match_at (pattern v) (drop k y @ '';'' @ z) = Some (g, m, r)
              \<longrightarrow> sm (trailing_key y) = None))
       \<or> (\<exists>p var t x. sm (trailing_key y) = Some x \<and> trailing_key y \<noteq> [] \<and> var_name v var \<and>
              y = p @ var @ t \<and>
              R (y @ '';'' @ z) = (p @ var @ '' = '' @ x @ '';'' @ fst (R z),
                                  (orig, var @ '' = '' @ x @ '';'', idx) # snd (R z)))"
proof (cases "\<exists>k < length y. match_at (pattern v) (drop k y @ '';'' @ z) \<noteq> None")
  case False
  then have nm: "\<And>k. k < length y \<Longrightarrow> match_at (pattern v) (drop k y @ '';'' @ z) = None"
    by blast
  have "\<And>k. k < length (y @ '';'') \<Longrightarrow> match_at (pattern v) (drop k (y @ '';'') @ z) = None"
  proof -
    fix k assume "k < length (y @ '';'')"
    then have "k < length y \<or> k = length y" by auto
    then show "match_at (pattern v) (drop k (y @ '';'') @ z) = None"
    proof
      assume "k < length y"
      with nm[OF this] show ?thesis by simp
    next
      assume "k = length y"
      with semicolon_no_match[OF v, of z] show ?thesis by simp
    qed
  qed
  from re_sub_prefix[of "y @ '';''" "pattern v" z "repl sm orig idx", OF this]
  have 1: "R (y @ '';'' @ z) = (y @ '';'' @ fst (R z), snd (R z))" by (simp add: R_def)
  have "match_at (pattern v) (drop k y @ '';'' @ z) = None" if "k \<le> length y" for k
  proof (cases "k = length y")
    case True
    with semicolon_no_match[OF v, of z] show ?thesis by simp
  next
    case False
    with that have "k < length y" by simp
    from nm[OF this] show ?thesis .
  qed
  then have 2: "\<forall>k \<le> length y. \<forall>g m r. match_at (pattern v) (drop k y @ '';'' @ z) = Some (g, m, r)
              \<longrightarrow> sm (trailing_key y) = None"
    by simp
  show ?thesis by (rule disjI1) (use 1 2 in blast)
next
  case True
  let ?P = "\<lambda>k. k < length y \<and> match_at (pattern v) (drop k y @ '';'' @ z) \<noteq> None"
  define k0 where "k0 = (LEAST k. ?P k)"
  from True have ex: "\<exists>k. ?P k" by blast
  have "?P k0" unfolding k0_def by (rule LeastI_ex[OF ex])
  then have k0: "k0 < length y" "match_at (pattern v) (drop k0 y @ '';'' @ z) \<noteq> None"
    by blast+
  have least: "match_at (pattern v) (drop k y @ '';'' @ z) = None" if "k < k0" for k
  proof -
    from that k0(1) have kl: "k < length y" by simp
    from that have "\<not> ?P k" unfolding k0_def by (rule not_less_Least)
    with kl show ?thesis by blast
  qed
  from k0(2) obtain g m r where x: "match_at (pattern v) (drop k0 y @ '';'' @ z) = Some (g, m, r)"
    by auto
  from seg_match[OF v y _ x] k0(1) obtain var t where s: "m = drop k0 y @ '';''" "r = z"
    "trailing_key y \<noteq> []" "g = [var, trailing_key y]" "var_name v var" "drop k0 y = var @ t"
    by auto
  have pre: "\<And>k. k < length (take k0 y) \<Longrightarrow>
      match_at (pattern v) (drop k (take k0 y) @ (drop k0 y @ '';'' @ z)) = None"
  proof -
    fix k assume "k < length (take k0 y)"
    then have kk: "k < k0" by simp
    have "drop k (take k0 y) @ drop k0 y = drop k y"
      using kk by (metis append_take_drop_id drop_append drop_take less_imp_le_nat
          diff_is_0_eq drop_0 length_take min.absorb2 k0(1) less_or_eq_imp_le)
    with least[OF kk] show "match_at (pattern v) (drop k (take k0 y) @ (drop k0 y @ '';'' @ z)) = None"
      by (metis append.assoc)
  qed
  have ne: "m \<noteq> []" using s(1) by simp
  have R1: "R (y @ '';'' @ z) = (take k0 y @ fst (R (drop k0 y @ '';'' @ z)), snd (R (drop k0 y @ '';'' @ z)))"
  proof -
    have ty: "take k0 y @ drop k0 y @ '';'' @ z = y @ '';'' @ z"
      by (simp flip: append_assoc)
    show ?thesis
      using re_sub_prefix[of "take k0 y" "pattern v" "drop k0 y @ '';'' @ z" "repl sm orig idx", OF pre]
      unfolding ty R_def .
  qed
  have R2: "R (drop k0 y @ '';'' @ z) =
      (fst (repl sm orig idx (g, m, r)) @ fst (R z), snd (repl sm orig idx (g, m, r)) @ snd (R z))"
    using re_sub_hit[OF x ne, of "repl sm orig idx"] s(2) by (simp add: R_def)
  show ?thesis
  proof (cases "sm (trailing_key y)")
    case None
    then have "repl sm orig idx (g, m, r) = (m, [])" using s(4) by (simp add: repl_None)
    with R1 R2 s(1) have "R (y @ '';'' @ z) = (y @ '';'' @ fst (R z), snd (R z))" by simp
    with None show ?thesis by auto
  next
    case (Some x')
    then have "repl sm orig idx (g, m, r) =
        (var @ '' = '' @ x' @ '';'', [(orig, var @ '' = '' @ x' @ '';'', idx)])"
      using s(4) by (simp add: repl_Some)
    with R1 R2 have "R (y @ '';'' @ z) = (take k0 y @ var @ '' = '' @ x' @ '';'' @ fst (R z),
        (orig, var @ '' = '' @ x' @ '';'', idx) # snd (R z))" by simp
    moreover have "y = take k0 y @ var @ t" using s(6) by (metis append_take_drop_id)
    ultimately show ?thesis using Some s(3,5) by blast
  qed
qed

lemma repl_silent: "snd (repl sm orig idx x) = [] \<Longrightarrow> fst (repl sm orig idx x) = fst (snd x)"
  by (simp add: repl_def Let_def split: option.splits)

lemma re_sub_silent:
  "snd (re_sub p (repl sm orig idx) s) = [] \<Longrightarrow> fst (re_sub p (repl sm orig idx) s) = s"
proof (induction p "repl sm orig idx" s rule: re_sub.induct)
  case (1 p s)
  show ?case
  proof (cases "match_at p s")
    case None
    show ?thesis
    proof (cases s)
      case Nil
      with None show ?thesis by (simp add: re_sub.simps)
    next
      case (Cons c cs)
      from "1.prems" None Cons have "snd (re_sub p (repl sm orig idx) cs) = []"
        by (subst (asm) re_sub.simps) (simp add: Let_def)
      from "1.hyps"(1)[OF None Cons this] None Cons show ?thesis
        by (subst re_sub.simps) (simp add: Let_def)
    qed
  next
    case (Some x)
    obtain g m r where x: "x = (g, m, r)" by (cases x)
    from match_at_split[of p s g m r] Some x have s: "s = m @ r" by simp
    show ?thesis
    proof (cases "m = []")
      case True
      show ?thesis
      proof (cases s)
        case Nil
        from "1.prems" Some x True Nil have "snd (repl sm orig idx x) = []"
          by (subst (asm) re_sub.simps) (simp add: Let_def)
        from repl_silent[OF this] Some x True Nil show ?thesis
          by (subst re_sub.simps) (simp add: Let_def)
      next
        case (Cons c cs)
        from "1.prems" Some x True Cons
        have e: "snd (repl sm orig idx x) = []" "snd (re_sub p (repl sm orig idx) cs) = []"
          by (subst (asm) re_sub.simps, simp add: Let_def)+
        have "fst (snd x) = []" using x True by simp
        from "1.hyps"(2)[OF Some refl this Cons e(2)] repl_silent[OF e(1)] Some x True Cons
        show ?thesis by (subst re_sub.simps) (simp add: Let_def)
      qed
    next
      case False
      from "1.prems" Some x False
      have e: "snd (repl sm orig idx x) = []" "snd (re_sub p (repl sm orig idx) r) = []"
        by (subst (asm) re_sub.simps, simp add: Let_def)+
      have "fst (snd x) \<noteq> []" using x False by simp
      from "1.hyps"(3)[OF Some refl this] e(2) x
      have "fst (re_sub p (repl sm orig idx) r) = r" by simp
      with repl_silent[OF e(1)] Some x False s show ?thesis
        by (subst re_sub.simps) (simp add: Let_def)
    qed
  qed
qed

lemma sub_var_silent:
  assumes "snd (sub_var sm orig idx st v) = []"
  shows "snd st = [] \<and> fst (sub_var sm orig idx st v) = fst st"
  using assms re_sub_silent[of "pattern v" sm orig idx "fst st"]
  by (simp add: sub_var_def Let_def)

lemma process_line_silent:
  assumes "snd (process_line sm idx line) = []"
  shows "fst (process_line sm idx line) = line"
proof -
  let ?s1 = "sub_var sm line idx (line, []) exact_var"
  have p: "process_line sm idx line = sub_var sm line idx ?s1 spr_var"
    by (simp add: process_line_def SPRITE_VARS_def)
  from assms p sub_var_silent[of sm line idx ?s1 spr_var]
  have 1: "snd ?s1 = []" "fst (process_line sm idx line) = fst ?s1" by simp_all
  from sub_var_silent[OF 1(1)] 1(2) show ?thesis by simp
qed

lemma rewrite_lines_changed:
  "fst (snd (rewrite_lines sm idx ls)) \<longleftrightarrow> fst (rewrite_lines sm idx ls) \<noteq> ls"
  by (induction ls arbitrary: idx) (auto simp: Let_def)

lemma rewrite_lines_silent:
  "snd (snd (rewrite_lines sm idx ls)) = [] \<Longrightarrow> fst (rewrite_lines sm idx ls) = ls"
  by (induction ls arbitrary: idx) (auto simp: Let_def process_line_silent)

lemma rewrite_lines_changed_records:
  "fst (snd (rewrite_lines sm idx ls)) \<Longrightarrow> snd (snd (rewrite_lines sm idx ls)) \<noteq> []"
  using rewrite_lines_silent[of sm idx ls] rewrite_lines_changed[of sm idx ls] by blast

lemma notify_frame [simp]:
  "fs_ops (notify gui lf fn w rep) = fs_ops w"
  "no_read (notify gui lf fn w rep) = no_read w"
  "no_write (notify gui lf fn w rep) = no_write w"
  "status_out (notify gui lf fn w rep) = status_out w"
  by (simp_all add: notify_def file_log_callback_def gui_log_callback_def append_file_def
      split: option.splits)

lemma notify_files: "lf \<noteq> Some p \<Longrightarrow> files (notify gui lf fn w rep) p = files w p"
  by (simp add: notify_def file_log_callback_def gui_log_callback_def append_file_def
      split: option.splits)

lemma notify_log:
  "files w lp = Some c \<Longrightarrow>
   files (notify gui (Some lp) fn w rep) lp = Some (c @ log_msg fn rep @ ''\<newline>'')"
  by (simp add: notify_def file_log_callback_def gui_log_callback_def append_file_def)

lemma notify_gui:
  "gui_out (notify gui lf fn w rep) = (if gui then gui_out w @ [log_msg fn rep] else gui_out w)"
  by (simp add: notify_def file_log_callback_def gui_log_callback_def append_file_def
      split: option.splits)

lemma notify_all_frame [simp]:
  "fs_ops (foldl (notify gui lf fn) w reps) = fs_ops w"
  "no_read (foldl (notify gui lf fn) w reps) = no_read w"
  "no_write (foldl (notify gui lf fn) w reps) = no_write w"
  "status_out (foldl (notify gui lf fn) w reps) = status_out w"
  by (induction reps arbitrary: w) simp_all

lemma notify_all_files:
  "lf \<noteq> Some p \<Longrightarrow> files (foldl (notify gui lf fn) w reps) p = files w p"
  by (induction reps arbitrary: w) (simp_all add: notify_files)

lemma notify_all_log:
  "files w lp = Some c \<Longrightarrow>
   files (foldl (notify gui (Some lp) fn) w reps) lp =
     Some (c @ concat (map (\<lambda>rep. log_msg fn rep @ ''\<newline>'') reps))"
  by (induction reps arbitrary: w c) (simp_all add: notify_log)

lemma notify_all_gui:
  "gui_out (foldl (notify gui lf fn) w reps) =
     (if gui then gui_out w @ map (log_msg fn) reps else gui_out w)"
  by (induction reps arbitrary: w) (simp_all add: notify_gui)

lemma bak_neq [simp]: "f @ ''.bak'' \<noteq> f" "f \<noteq> f @ ''.bak''"
  by (auto dest: arg_cong[of _ _ length])

lemma replace_in_file_perm:
  assumes "replace_in_file f sm gui lf w = (w', res)"
  shows "no_read w' = no_read w \<and> no_write w' = no_write w"
  using assms
  by (auto simp: replace_in_file_def open_read_def backup_file_def shutil_copy_def write_file_def
      Let_def split: option.splits if_splits sum.splits prod.splits)

lemma replace_in_file_files_other:
  assumes "replace_in_file f sm gui lf w = (w', res)" "p \<noteq> f" "p \<noteq> f @ ''.bak''" "lf \<noteq> Some p"
  shows "files w' p = files w p"
  using assms
  by (auto simp: replace_in_file_def open_read_def backup_file_def shutil_copy_def write_file_def
      Let_def notify_all_files split: option.splits if_splits sum.splits prod.splits)

lemma replace_in_file_bak_kept:
  assumes "replace_in_file f sm gui lf w = (w', res)" "files w (f @ ''.bak'') = Some b"
    "lf \<noteq> Some (f @ ''.bak'')"
  shows "files w' (f @ ''.bak'') = Some b"
  using assms
  by (auto simp: replace_in_file_def open_read_def backup_file_def shutil_copy_def write_file_def
      Let_def notify_all_files split: option.splits if_splits sum.splits prod.splits)

lemma replace_in_file_unchanged:
  assumes "replace_in_file f sm gui lf w = (w', Inr (False, reps))"
  shows "fs_ops w' = fs_ops w @ [OpenRead f] \<and> (\<forall>p. lf \<noteq> Some p \<longrightarrow> files w' p = files w p)"
  using assms
  by (auto simp: replace_in_file_def open_read_def backup_file_def shutil_copy_def write_file_def
      Let_def notify_all_files split: option.splits if_splits sum.splits prod.splits)

lemma replace_in_file_changed:
  assumes "replace_in_file f sm gui lf w = (w', Inr (True, reps))" "lf \<noteq> Some f"
    "lf \<noteq> Some (f @ ''.bak'')"
  shows "reps \<noteq> [] \<and>
     files w' (f @ ''.bak'') = (case files w (f @ ''.bak'') of None \<Rightarrow> files w f | Some b \<Rightarrow> Some b)"
  using assms rewrite_lines_changed_records
  by (auto simp: replace_in_file_def open_read_def backup_file_def shutil_copy_def write_file_def
      Let_def notify_all_files split: option.splits if_splits sum.splits prod.splits)

lemma endswith_iff: "endswith s p \<longleftrightarrow> (\<exists>a. s = a @ p)"
proof
  assume "endswith s p"
  then have "s = take (length s - length p) s @ p"
    by (metis append_take_drop_id endswith_def)
  then show "\<exists>a. s = a @ p" ..
next
  assume "\<exists>a. s = a @ p"
  then show "endswith s p" by (auto simp: endswith_def)
qed

lemma os_path_join_suffix: "\<exists>a. os_path_join r f = a @ f"
  by (auto simp: os_path_join_def intro: exI[of _ "[]"])

lemma eligible_last: "eligible p \<Longrightarrow> last p = CHR ''l'' \<or> last p = CHR ''y'' \<or> last p = CHR ''p''"
  by (auto simp: eligible_def CODE_EXTENSIONS_def endswith_iff)

lemma eligible_join: "eligible f \<Longrightarrow> eligible (os_path_join r f)"
proof -
  assume "eligible f"
  then obtain ext where e: "ext \<in> set CODE_EXTENSIONS" "endswith f ext"
    by (auto simp: eligible_def list_ex_iff)
  obtain a where "os_path_join r f = a @ f" using os_path_join_suffix by blast
  with e(2) have "endswith (os_path_join r f) ext"
    unfolding endswith_iff by (metis append.assoc)
  with e(1) show ?thesis by (auto simp: eligible_def list_ex_iff)
qed

lemma walk_files_eligible: "p \<in> set (walk_files d t) \<Longrightarrow> eligible p"
  by (auto simp: walk_files_def eligible_join)

lemma log_path_last: "last (log_path_of argv0) = CHR ''t''"
proof -
  obtain a where "log_path_of argv0 = a @ LOG_FILENAME"
    unfolding log_path_of_def using os_path_join_suffix by blast
  then show ?thesis by (simp add: LOG_FILENAME_def)
qed

lemma eligible_not_bak: "eligible p \<Longrightarrow> p \<noteq> q @ ''.bak''"
  using eligible_last[of p] by auto

lemma eligible_not_log: "eligible p \<Longrightarrow> last lp = CHR ''t'' \<Longrightarrow> p \<noteq> lp \<and> p @ ''.bak'' \<noteq> lp"
  using eligible_last[of p] by auto

lemma callbacks_frame [simp]:
  "files (status_callback st msg w) = files w"
  "files (gui_log_callback gui msg w) = files w"
  "fs_ops (status_callback st msg w) = fs_ops w"
  "fs_ops (gui_log_callback gui msg w) = fs_ops w"
  "no_read (status_callback st msg w) = no_read w"
  "no_read (gui_log_callback gui msg w) = no_read w"
  "no_write (status_callback st msg w) = no_write w"
  "no_write (gui_log_callback gui msg w) = no_write w"
  by (simp_all add: status_callback_def gui_log_callback_def)

lemma scan_files_append:
  "scan_files sm gui st lp (pre @ post) acc w =
     (case scan_files sm gui st lp pre acc w of
        (w1, Inl e) \<Rightarrow> (w1, Inl e)
      | (w1, Inr acc1) \<Rightarrow> scan_files sm gui st lp post acc1 w1)"
  by (induction pre arbitrary: acc w) (auto simp: Let_def split: prod.splits sum.splits)

lemma scan_files_bak_kept:
  assumes "scan_files sm gui st lp fs acc w = (w', res)"
    and "list_all eligible fs" "last lp = CHR ''t''"
    and "files w (q @ ''.bak'') = Some b"
  shows "files w' (q @ ''.bak'') = Some b"
  using assms
proof (induction fs arbitrary: acc w)
  case Nil
  then show ?case by simp
next
  case (Cons f fs)
  let ?w2 = "gui_log_callback gui (''Checking: '' @ f) (status_callback st (''Scanning: '' @ f) w)"
  obtain w3 r where r: "replace_in_file f sm gui (Some lp) ?w2 = (w3, r)" by fastforce
  have el: "eligible f" using Cons.prems(2) by simp
  have lq: "lp \<noteq> q @ ''.bak''" using Cons.prems(3) by auto
  have k: "files w3 (q @ ''.bak'') = Some b"
  proof (cases "q = f")
    case True
    with replace_in_file_bak_kept[OF r, of b] Cons.prems(4) lq show ?thesis by auto
  next
    case False
    with replace_in_file_files_other[OF r, of "q @ ''.bak''"] eligible_not_bak[OF el, of q]
      Cons.prems(4) lq show ?thesis by auto
  qed
  show ?case
  proof (cases r)
    case (Inl e)
    with Cons.prems(1) r k show ?thesis by (simp add: Let_def)
  next
    case (Inr cr)
    obtain ch reps where "cr = (ch, reps)" by (cases cr)
    with Inr Cons.prems(1) r obtain acc' where "scan_files sm gui st lp fs acc' w3 = (w', res)"
      by (auto simp: Let_def split: if_splits)
    from Cons.IH[OF this _ Cons.prems(3) k] Cons.prems(2) show ?thesis by simp
  qed
qed

lemma open_read_frame:
  assumes "open_read p w = (w', r)"
  shows "files w' = files w \<and> no_read w' = no_read w \<and> no_write w' = no_write w"
  using assms by (auto simp: open_read_def split: option.splits if_splits)

lemma scan_and_replace_log_path:
  "os_path_join (os_path_dirname argv0) LOG_FILENAME = log_path_of argv0"
  by (simp add: log_path_of_def)

lemma scan_and_replace_bak_kept:
  assumes "files w (q @ ''.bak'') = Some b"
  shows "files (fst (scan_and_replace argv0 tree d mf gui st w)) (q @ ''.bak'') = Some b"
proof -
  let ?lp = "log_path_of argv0"
  have lq: "?lp \<noteq> q @ ''.bak''" using log_path_last[of argv0] by auto
  obtain w1 r1 where l: "load_sprite_map mf w = (w1, r1)" by fastforce
  have f1: "files w1 = files w"
    using l open_read_frame[of mf w] by (auto simp: load_sprite_map_def split: prod.splits sum.splits)
  show ?thesis
  proof (cases r1)
    case (Inl e)
    with l f1 assms show ?thesis by (simp add: scan_and_replace_def)
  next
    case (Inr sm)
    obtain w2 r2 where wr: "write_file ?lp [] w1 = (w2, r2)" by fastforce
    have f2: "files w2 (q @ ''.bak'') = Some b"
      using wr f1 assms lq by (auto simp: write_file_def split: if_splits)
    show ?thesis
    proof (cases r2)
      case (Inl e)
      with l Inr wr f2 show ?thesis
        by (simp add: scan_and_replace_def scan_and_replace_log_path Let_def)
    next
      case r2: (Inr u)
      obtain w3 r3 where sc: "scan_files sm gui st ?lp (walk_files d tree) ([], []) w2 = (w3, r3)"
        by fastforce
      have "list_all eligible (walk_files d tree)"
        by (simp add: list_all_iff walk_files_eligible)
      from scan_files_bak_kept[OF sc this log_path_last f2]
      have f3: "files w3 (q @ ''.bak'') = Some b" .
      show ?thesis
      proof (cases r3)
        case (Inl e)
        with l Inr wr r2 sc f3 show ?thesis
          by (simp add: scan_and_replace_def scan_and_replace_log_path Let_def)
      next
        case r3: (Inr acc)
        obtain rf ar where "acc = (rf, ar)" by (cases acc)
        with l Inr wr r2 sc r3 f3 lq show ?thesis
          by (simp add: scan_and_replace_def scan_and_replace_log_path Let_def append_file_def)
      qed
    qed
  qed
qed

lemma run_all_bak_kept:
  "files w (q @ ''.bak'') = Some b \<Longrightarrow> files (run_all rs w) (q @ ''.bak'') = Some b"
proof (induction rs arbitrary: w)
  case Nil
  then show ?case by simp
next
  case (Cons r rs)
  obtain a t d m g s where "r = (a, t, d, m, g, s)" by (cases r)
  with Cons.IH[OF scan_and_replace_bak_kept[OF Cons.prems, of a t d m g s]] show ?case by simp
qed

lemma replace_in_file_touch:
  assumes "replace_in_file f sm gui lf w = (w', res)" "files w f = Some content"
    and "lf \<noteq> Some f" "lf \<noteq> Some (f @ ''.bak'')"
    and "files w' f \<noteq> files w f \<or> files w' (f @ ''.bak'') \<noteq> files w (f @ ''.bak'') \<or>
         (fs_ops w' \<noteq> fs_ops w \<and> fs_ops w' \<noteq> fs_ops w @ [OpenRead f])"
  shows "snd (snd (rewrite_lines sm 1 (readlines content))) \<noteq> []"
  using assms rewrite_lines_changed_records[of sm 1 "readlines content"]
  by (auto simp: replace_in_file_def open_read_def backup_file_def shutil_copy_def write_file_def
      Let_def notify_all_files split: option.splits if_splits sum.splits prod.splits)

lemma replace_in_file_no_copy:
  assumes "replace_in_file f sm gui lf w = (w', res)" "files w (f @ ''.bak'') = Some b"
    "lf \<noteq> Some (f @ ''.bak'')"
  shows "\<exists>ops. fs_ops w' = fs_ops w @ ops \<and> CopyFile f (f @ ''.bak'') \<notin> set ops"
  using assms
  by (auto simp: replace_in_file_def open_read_def backup_file_def shutil_copy_def write_file_def
      Let_def notify_all_files split: option.splits if_splits sum.splits prod.splits)

lemma var_name_has_s: "var_name v var \<Longrightarrow> CHR ''s'' \<in> set var"
  by (auto simp: var_name_def spr_name_def has_spr_iff)

lemma s_class: "\<not> is_space CHR ''s''" "\<not> is_digit CHR ''s''" "CHR ''s'' \<noteq> CHR ''=''"
  by (simp_all add: is_space_def is_digit_def code_def)

lemma drop_append_le: "k \<le> length a \<Longrightarrow> drop k (a @ b) = drop k a @ b"
  by simp

lemma match_in_assign:
  assumes v: "v \<in> set SPRITE_VARS" and w: "list_all is_word var"
    and parts: "assign_parts ws1 ws2 ds ws3" and ind: "list_all is_space ind"
    and k: "k \<le> length (ind @ var @ ws1 @ ''='' @ ws2 @ ds @ ws3)"
    and m: "match_at (pattern v) (drop k (ind @ assign_text var ws1 ws2 ds ws3) @ post) = Some (g, m, r)"
  shows "\<exists>j \<le> length var. k = length ind + j \<and> var_name v (drop j var) \<and> g = [drop j var, ds] \<and>
           m = assign_text (drop j var) ws1 ws2 ds ws3 \<and> r = post"
proof -
  let ?T = "ws1 @ ''='' @ ws2 @ ds @ ws3"
  let ?y = "ind @ var @ ?T"
  have line: "ind @ assign_text var ws1 ws2 ds ws3 = ?y @ '';''" by (simp add: assign_text_def)
  have ny: "CHR '';'' \<notin> set ?y"
    using assign_text_no_semicolon[OF w parts] ind class_facts(7) by (auto simp: list_all_iff)
  have d: "drop k (?y @ '';'') @ post = drop k ?y @ '';'' @ post"
    using drop_append_le[OF k, of "'';''"] by (simp only: append_assoc)
  from m have m': "match_at (pattern v) (drop k ?y @ '';'' @ post) = Some (g, m, r)"
    unfolding line d .
  from seg_match[OF v ny k m'] obtain var' t where
    s: "m = drop k ?y @ '';''" "r = post" "g = [var', trailing_key ?y]" "var_name v var'"
      "drop k ?y = var' @ t"
    by blast
  have tk: "trailing_key ?y = ds"
    using trailing_key_assign[OF parts, of "ind @ var"] by simp
  have sin: "CHR ''s'' \<in> set (drop k ?y)" using var_name_has_s[OF s(4)] s(5) by simp
  have hdw: "is_word (hd (drop k ?y))"
    using var_name_nonempty[OF s(4)] var_name_word[OF s(4)] s(5) by (cases var') auto
  have kind: "length ind \<le> k"
  proof (rule ccontr)
    assume "\<not> length ind \<le> k"
    then have "k < length ind" by simp
    then have "hd (drop k ?y) \<in> set ind"
      by (metis drop_append hd_append2 hd_drop_conv_nth nth_mem drop_eq_Nil not_le
          diff_is_0_eq' less_imp_le_nat drop_0)
    with ind hdw show False by (auto simp: list_all_iff class_facts)
  qed
  define j where "j = k - length ind"
  have kj: "k = length ind + j" using kind j_def by simp
  have dj: "drop k ?y = drop j (var @ ?T)" using kj by simp
  have jv: "j \<le> length var"
  proof (rule ccontr)
    assume "\<not> j \<le> length var"
    then have "drop j (var @ ?T) = drop (j - length var) ?T" by simp
    with sin dj have "CHR ''s'' \<in> set ?T" by (metis in_set_dropD)
    with parts s_class show False by (auto simp: assign_parts_def list_all_iff)
  qed
  then have dv: "drop k ?y = drop j var @ ?T" using dj by simp
  from m' have "match_at (pattern v) (assign_text (drop j var) ws1 ws2 ds ws3 @ post) = Some (g, m, r)"
    unfolding dv by (simp add: assign_text_def)
  then obtain var2 a1 a2 ds2 a3 where h: "var_name v var2" "assign_parts a1 a2 ds2 a3"
    "g = [var2, ds2]" "m = assign_text var2 a1 a2 ds2 a3"
    "assign_text (drop j var) ws1 ws2 ds ws3 @ post = m @ r"
    unfolding match_at_pattern_iff[OF v] by blast
  have wj: "list_all is_word (drop j var)" using w by (auto simp: list_all_iff dest: in_set_dropD)
  have "assign_text (drop j var) ws1 ws2 ds ws3 @ post = assign_text var2 a1 a2 ds2 a3 @ r"
    using h(4,5) by simp
  from assign_unique[OF wj var_name_word[OF h(1)] parts h(2) this]
  have "drop j var = var2" "ds = ds2" "ws1 = a1" "ws2 = a2" "ws3 = a3" "post = r" by simp_all
  with h jv kj show ?thesis by auto
qed

lemma var_name_simps [simp]:
  "var_name exact_var x \<longleftrightarrow> x = ''sprite_index''"
  "var_name spr_var x \<longleftrightarrow> spr_name x"
  using vars_distinct by (auto simp: var_name_def)

lemma vars_in [simp]: "exact_var \<in> set SPRITE_VARS" "spr_var \<in> set SPRITE_VARS"
  by (simp_all add: SPRITE_VARS_def)

lemma pass_assign_hit:
  assumes v: "v \<in> set SPRITE_VARS" and w: "list_all is_word var"
    and parts: "assign_parts ws1 ws2 ds ws3" and ind: "list_all is_space ind"
    and post: "CHR '';'' \<notin> set post"
    and j0: "j0 \<le> length var" "var_name v (drop j0 var)" "\<And>j. j < j0 \<Longrightarrow> \<not> var_name v (drop j var)"
  shows "re_sub (pattern v) (repl sm orig idx) (ind @ assign_text var ws1 ws2 ds ws3 @ post) =
     (case sm ds of
        None \<Rightarrow> (ind @ assign_text var ws1 ws2 ds ws3 @ post, [])
      | Some x \<Rightarrow> (ind @ var @ '' = '' @ x @ '';'' @ post,
                   [(orig, drop j0 var @ '' = '' @ x @ '';'', idx)]))"
proof -
  let ?R = "re_sub (pattern v) (repl sm orig idx)"
  let ?pre = "ind @ take j0 var"
  let ?a = "assign_text (drop j0 var) ws1 ws2 ds ws3"
  have "var @ z = take j0 var @ drop j0 var @ z" for z :: string
    by (metis append.assoc append_take_drop_id)
  then have split: "ind @ assign_text var ws1 ws2 ds ws3 = ?pre @ ?a"
    by (simp add: assign_text_def)
  have lp: "length ?pre = length ind + j0" using j0(1) by simp
  have pre: "match_at (pattern v) (drop k ?pre @ (?a @ post)) = None" if "k < length ?pre" for k
  proof (cases "match_at (pattern v) (drop k ?pre @ (?a @ post))")
    case None
    then show ?thesis .
  next
    case (Some x)
    obtain g m r where x: "x = (g, m, r)" by (cases x)
    have kk: "k \<le> length (ind @ var @ ws1 @ ''='' @ ws2 @ ds @ ws3)" using that lp j0(1) by simp
    have "drop k ?pre @ (?a @ post) = drop k (?pre @ ?a) @ post"
      using that by simp
    with Some x have "match_at (pattern v) (drop k (ind @ assign_text var ws1 ws2 ds ws3) @ post)
        = Some (g, m, r)"
      unfolding split by simp
    from match_in_assign[OF v w parts ind kk this] obtain j where
      "k = length ind + j" "var_name v (drop j var)" by blast
    with that lp j0(3)[of j] show ?thesis by simp
  qed
  have 1: "?R (?pre @ (?a @ post)) = (?pre @ fst (?R (?a @ post)), snd (?R (?a @ post)))"
    by (rule re_sub_prefix) (rule pre)
  have ma: "match_at (pattern v) (?a @ post) = Some ([drop j0 var, ds], ?a, post)"
    by (rule match_at_assign[OF v j0(2) parts])
  have ne: "?a \<noteq> []" by (simp add: assign_text_def)
  have 2: "?R (?a @ post) =
      (fst (repl sm orig idx ([drop j0 var, ds], ?a, post)) @ post,
       snd (repl sm orig idx ([drop j0 var, ds], ?a, post)))"
    using re_sub_hit[OF ma ne, of "repl sm orig idx"] re_sub_no_semicolon[OF v post, of "repl sm orig idx"]
    by simp
  have tv: "take j0 var @ drop j0 var @ z = var @ z" for z :: string
    by (metis append.assoc append_take_drop_id)
  show ?thesis
  proof (cases "sm ds")
    case None
    with 1 2 split show ?thesis
      by (simp add: repl_None)
  next
    case (Some x)
    with 1 2 split tv show ?thesis
      by (simp add: repl_Some)
  qed
qed

lemma pass_assign_miss:
  assumes v: "v \<in> set SPRITE_VARS" and w: "list_all is_word var"
    and parts: "assign_parts ws1 ws2 ds ws3" and ind: "list_all is_space ind"
    and post: "CHR '';'' \<notin> set post"
    and none: "\<And>j. j \<le> length var \<Longrightarrow> \<not> var_name v (drop j var)"
  shows "re_sub (pattern v) (repl sm orig idx) (ind @ assign_text var ws1 ws2 ds ws3 @ post) =
     (ind @ assign_text var ws1 ws2 ds ws3 @ post, [])"
proof -
  let ?R = "re_sub (pattern v) (repl sm orig idx)"
  let ?l = "ind @ assign_text var ws1 ws2 ds ws3"
  have pre: "match_at (pattern v) (drop k ?l @ post) = None" if "k < length ?l" for k
  proof (cases "match_at (pattern v) (drop k ?l @ post)")
    case None
    then show ?thesis .
  next
    case (Some x)
    obtain g m r where x: "x = (g, m, r)" by (cases x)
    have kk: "k \<le> length (ind @ var @ ws1 @ ''='' @ ws2 @ ds @ ws3)"
      using that by (simp add: assign_text_def)
    from match_in_assign[OF v w parts ind kk] Some x none show ?thesis by blast
  qed
  have "?R (?l @ post) = (?l @ fst (?R post), snd (?R post))"
    by (rule re_sub_prefix) (rule pre)
  with re_sub_no_semicolon[OF v post, of "repl sm orig idx"] show ?thesis by simp
qed

lemma trailing_key_value: "trailing_key (a @ '' = '' @ x) = trailing_key x"
proof (cases "list_all is_space x")
  case True
  then have a: "\<forall>c \<in> set (rev x). is_space c" by (simp add: list_all_iff)
  have 1: "dropWhile is_space (rev x) = []" by (rule dropWhile_all[OF a])
  have sp: "is_space CHR '' ''" by (simp add: is_space_def code_def)
  have 2: "dropWhile is_space (rev x @ '' = '' @ rev a) = ''= '' @ rev a"
    using a sp class_facts(4) by (simp add: dropWhile_append)
  have "trailing_key (a @ '' = '' @ x) = []"
    unfolding trailing_key_def using 2 class_facts(6) by simp
  moreover have "trailing_key x = []" unfolding trailing_key_def 1 by simp
  ultimately show ?thesis by simp
next
  case False
  then have ne: "dropWhile is_space (rev x) \<noteq> []" by (auto simp: list_all_iff)
  from False have d: "dropWhile is_space (rev x @ '' = '' @ rev a) = dropWhile is_space (rev x) @ '' = '' @ rev a"
    by (auto simp: dropWhile_append list_all_iff)
  have sp: "\<not> is_digit CHR '' ''" by (simp add: is_digit_def code_def)
  have "takeWhile is_digit (dropWhile is_space (rev x) @ '' = '' @ rev a) =
      takeWhile is_digit (dropWhile is_space (rev x))"
  proof (cases "list_all is_digit (dropWhile is_space (rev x))")
    case True
    have t1: "takeWhile is_digit (dropWhile is_space (rev x)) = dropWhile is_space (rev x)"
      by (rule takeWhile_eq_all_conv[THEN iffD2]) (use True in \<open>simp add: list_all_iff\<close>)
    have t2: "takeWhile is_digit (dropWhile is_space (rev x) @ '' = '' @ rev a) =
        dropWhile is_space (rev x)"
      by (rule takeWhile_stop[OF True]) (simp add: sp)
    show ?thesis by (simp only: t1 t2)
  next
    case False
    then obtain c where "c \<in> set (dropWhile is_space (rev x))" "\<not> is_digit c"
      by (auto simp: list_all_iff)
    then show ?thesis by (rule takeWhile_append1)
  qed
  with d show ?thesis by (simp add: trailing_key_def)
qed

lemma pass_unaccepted:
  assumes v: "v \<in> set SPRITE_VARS" and y: "CHR '';'' \<notin> set y" and post: "CHR '';'' \<notin> set post"
    and key: "trailing_key y = [] \<or> sm (trailing_key y) = None"
  shows "re_sub (pattern v) (repl sm orig idx) (y @ '';'' @ post) = (y @ '';'' @ post, [])"
  using re_sub_segment[OF v y, of sm orig idx post] key
    re_sub_no_semicolon[OF v post, of "repl sm orig idx"]
  by auto

lemma process_line_passes:
  "process_line sm idx line =
     (let r1 = re_sub (pattern exact_var) (repl sm line idx) line;
          r2 = re_sub (pattern spr_var) (repl sm line idx) (fst r1)
      in (fst r2, snd r1 @ snd r2))"
  by (simp add: process_line_def SPRITE_VARS_def sub_var_def Let_def)

lemma assign_segment:
  "ind @ assign_text var ws1 ws2 ds ws3 @ post = (ind @ var @ ws1 @ ''='' @ ws2 @ ds @ ws3) @ '';'' @ post"
  by (simp add: assign_text_def)

lemma process_line_not_key:
  assumes w: "list_all is_word var" and parts: "assign_parts ws1 ws2 ds ws3"
    and ind: "list_all is_space ind" and post: "CHR '';'' \<notin> set post"
    and none: "sm ds = None"
  shows "process_line sm idx (ind @ assign_text var ws1 ws2 ds ws3 @ post) =
     (ind @ assign_text var ws1 ws2 ds ws3 @ post, [])"
proof -
  let ?y = "ind @ var @ ws1 @ ''='' @ ws2 @ ds @ ws3"
  have ny: "CHR '';'' \<notin> set ?y"
    using assign_text_no_semicolon[OF w parts] ind class_facts(7) by (auto simp: list_all_iff)
  have tk: "trailing_key ?y = ds"
    using trailing_key_assign[OF parts, of "ind @ var"] by simp
  have "re_sub (pattern v) (repl sm orig idx) (?y @ '';'' @ post) = (?y @ '';'' @ post, [])"
    if "v \<in> set SPRITE_VARS" for v orig
    by (rule pass_unaccepted[OF that ny post]) (unfold tk, simp add: none)
  then show ?thesis
    unfolding process_line_passes assign_segment by (simp add: Let_def)
qed

lemma process_line_key:
  assumes v: "v \<in> set SPRITE_VARS" and vn: "var_name v var" and parts: "assign_parts ws1 ws2 ds ws3"
    and ind: "list_all is_space ind" and post: "CHR '';'' \<notin> set post"
    and some: "sm ds = Some x" and rr: "\<not> reread sm x"
  shows "fst (process_line sm idx (ind @ assign_text var ws1 ws2 ds ws3 @ post)) =
     ind @ var @ '' = '' @ x @ '';'' @ post"
proof -
  let ?line = "ind @ assign_text var ws1 ws2 ds ws3 @ post"
  let ?new = "ind @ var @ '' = '' @ x @ '';'' @ post"
  have w: "list_all is_word var" by (rule var_name_word[OF vn])
  show ?thesis
  proof (cases "\<exists>j \<le> length var. drop j var = ''sprite_index''")
    case True
    then obtain j0 where j0: "j0 \<le> length var" "drop j0 var = ''sprite_index''" by blast
    have least: "\<not> var_name exact_var (drop j var)" if "j < j0" for j
    proof
      assume "var_name exact_var (drop j var)"
      then have "length (drop j var) = length (drop j0 var)" using j0(2) by simp
      with that j0(1) show False by simp
    qed
    have 1: "re_sub (pattern exact_var) (repl sm ?line idx) ?line =
        (?new, [(?line, drop j0 var @ '' = '' @ x @ '';'', idx)])"
      using pass_assign_hit[OF vars_in(1) w parts ind post j0(1) _ least, of sm ?line idx] j0(2) some
      by simp
    let ?y = "ind @ var @ '' = '' @ x"
    have ny: "CHR '';'' \<notin> set ?y"
      using w ind rr class_facts(7,8,4) by (auto simp: list_all_iff reread_def)
    have tk: "trailing_key ?y = trailing_key x"
      using trailing_key_value[of "ind @ var" x] by simp
    have 2: "re_sub (pattern spr_var) (repl sm ?line idx) (?y @ '';'' @ post) = (?y @ '';'' @ post, [])"
      by (rule pass_unaccepted[OF vars_in(2) ny post]) (unfold tk, use rr in \<open>auto simp: reread_def\<close>)
    show ?thesis
      unfolding process_line_passes using 1 2 by (simp add: Let_def)
  next
    case False
    then have miss: "\<And>j. j \<le> length var \<Longrightarrow> \<not> var_name exact_var (drop j var)" by auto
    have 1: "re_sub (pattern exact_var) (repl sm ?line idx) ?line = (?line, [])"
      by (rule pass_assign_miss[OF vars_in(1) w parts ind post miss])
    from False have "var \<noteq> ''sprite_index''" by (metis drop0 le0)
    with vn v have sn: "var_name spr_var (drop 0 var)" by (auto simp: var_name_def)
    have 2: "re_sub (pattern spr_var) (repl sm ?line idx) ?line =
        (?new, [(?line, drop 0 var @ '' = '' @ x @ '';'', idx)])"
      using pass_assign_hit[OF vars_in(2) w parts ind post _ sn, of sm ?line idx] some by simp
    show ?thesis
      unfolding process_line_passes using 1 2 by (simp add: Let_def)
  qed
qed

end
